theory Spec2Isabelle
  imports Complex_Main "HOL-Library.AList" "HOL-Library.Option_ord"
begin

section \<open>Data model\<close>

text \<open>
  Shallow embedding of \<^verbatim>\<open>beir/retrieval/search/dense/exact_search_multi_gpu.py\<close>.

  A similarity score is a float; the only float facts the code relies on are the order of
  scores and whether a score is not-a-number, so a score is either \<open>NaN\<close> or a number.
\<close>

datatype score = NaN | Fin real

text \<open>Every \<^verbatim>\<open>raise\<close> of the source, and every exception of a library call it makes.\<close>

datatype error =
    ScoreFunctionError string  \<comment> \<open>the \<^verbatim>\<open>ValueError\<close> of line 75\<close>
  | ZeroDivisionError          \<comment> \<open>\<^verbatim>\<open>len(corpus) / len(self.target_devices)\<close> with no device\<close>
  | BatchSizeError int         \<comment> \<open>\<^verbatim>\<open>DataLoader(..., batch_size=n)\<close> with \<open>n \<le> 0\<close>\<close>
  | CatEmptyError              \<comment> \<open>\<^verbatim>\<open>torch.cat([])\<close>\<close>
  | IndexError
  | KeyError
  | TypeError
  | AttributeError
  | TopkRangeError             \<comment> \<open>\<^verbatim>\<open>torch.topk\<close> with \<open>k\<close> out of range\<close>
  | PoolBlocked                \<comment> \<open>a blocking \<^verbatim>\<open>Queue.get()\<close> that nothing will ever answer\<close>

text \<open>
  One example of the \<^verbatim>\<open>DummyMetric\<close> table (the features declared in \<^verbatim>\<open>_info\<close>):
  a sequence of floats, a sequence of integers and a batch index. This is the example as
  a worker writes it; the floats are stored in a \<^verbatim>\<open>Value("float")\<close> column, and what is read
  back from it is \<open>stored\<close> below.
\<close>

record row =
  cos_scores_top_k_values :: "score list"
  cos_scores_top_k_idx :: "int list"
  batch_index :: int

text \<open>A Python \<^verbatim>\<open>dict\<close> with string keys: insertion-ordered, one entry per key.\<close>

type_synonym 'v pydict = "(string \<times> 'v) list"

type_synonym results = "(score pydict) pydict"

text \<open>Python list indexing: a negative index counts from the end, out of range raises.\<close>

definition py_get :: "'a list \<Rightarrow> int \<Rightarrow> error + 'a" where
  "py_get xs i =
     (if 0 \<le> i \<and> i < int (length xs) then Inr (xs ! nat i)
      else if i < 0 \<and> - int (length xs) \<le> i then Inr (xs ! nat (int (length xs) + i))
      else Inl IndexError)"

section \<open>The merge stage (lines 130 to 143 of \<^verbatim>\<open>search\<close>)\<close>

text \<open>\<^verbatim>\<open>self.results[query_id][corpus_id] = score\<close>\<close>

definition set_result :: "results \<Rightarrow> string \<Rightarrow> string \<Rightarrow> score \<Rightarrow> error + results" where
  "set_result res query_id corpus_id sc =
     (case map_of res query_id of
        None \<Rightarrow> Inl KeyError
      | Some m \<Rightarrow> Inr (AList.update query_id (AList.update corpus_id sc m) res))"

text \<open>
  The inner loop \<^verbatim>\<open>for i in range(len(cos_scores_top_k_values))\<close> for one query. The
  result is the dictionary as the loop left it and the exception that stopped it, if any.
\<close>

fun merge_rows ::
  "string \<Rightarrow> nat \<Rightarrow> string list \<Rightarrow> int \<Rightarrow> row list \<Rightarrow> results \<Rightarrow> results \<times> error option" where
  "merge_rows query_id query_itr corpus_ids chunk_size [] res = (res, None)"
| "merge_rows query_id query_itr corpus_ids chunk_size (r # rs) res =
     (let batch_num = batch_index r in
      if batch_num = -1 then merge_rows query_id query_itr corpus_ids chunk_size rs res
      else
        case py_get (cos_scores_top_k_idx r) (int query_itr) of
          Inl e \<Rightarrow> (res, Some e)
        | Inr ix \<Rightarrow>
            let sub_corpus_id = ix + batch_num * chunk_size in
            (case py_get (cos_scores_top_k_values r) (int query_itr) of
               Inl e \<Rightarrow> (res, Some e)
             | Inr sc \<Rightarrow>
                 (case py_get corpus_ids sub_corpus_id of
                    Inl e \<Rightarrow> (res, Some e)
                  | Inr corpus_id \<Rightarrow>
                      if corpus_id \<noteq> query_id then
                        (case set_result res query_id corpus_id sc of
                           Inl e \<Rightarrow> (res, Some e)
                         | Inr res' \<Rightarrow>
                             merge_rows query_id query_itr corpus_ids chunk_size rs res')
                      else merge_rows query_id query_itr corpus_ids chunk_size rs res)))"

text \<open>The outer loop \<^verbatim>\<open>for query_itr in range(len(query_embeddings))\<close>.\<close>

fun merge_queries ::
  "string list \<Rightarrow> string list \<Rightarrow> int \<Rightarrow> row list \<Rightarrow> nat list \<Rightarrow> results \<Rightarrow> results \<times> error option" where
  "merge_queries query_ids corpus_ids chunk_size rows [] res = (res, None)"
| "merge_queries query_ids corpus_ids chunk_size rows (query_itr # rest) res =
     (case py_get query_ids (int query_itr) of
        Inl e \<Rightarrow> (res, Some e)
      | Inr query_id \<Rightarrow>
          (case merge_rows query_id query_itr corpus_ids chunk_size rows res of
             (res', Some e) \<Rightarrow> (res', Some e)
           | (res', None) \<Rightarrow> merge_queries query_ids corpus_ids chunk_size rows rest res'))"

text \<open>\<^verbatim>\<open>{qid: {} for qid in query_ids}\<close>\<close>

definition empty_results :: "string list \<Rightarrow> results" where
  "empty_results query_ids = fold (\<lambda>qid. AList.update qid []) query_ids []"

text \<open>
  Lines 130 to 143: \<open>n_embeddings\<close> is \<^verbatim>\<open>len(query_embeddings)\<close>, \<open>rows\<close> is what
  \<^verbatim>\<open>metric.compute()\<close> returned, example by example.
\<close>

definition format_results ::
  "string list \<Rightarrow> string list \<Rightarrow> nat \<Rightarrow> int \<Rightarrow> row list \<Rightarrow> results \<times> error option" where
  "format_results query_ids corpus_ids n_embeddings chunk_size rows =
     merge_queries query_ids corpus_ids chunk_size rows [0..<n_embeddings]
       (empty_results query_ids)"

section \<open>Corpus, queries and the external collaborators\<close>

text \<open>
  What a corpus row holds under the key \<^verbatim>\<open>"title"\<close>: nothing (the dataset has no title
  column), \<^verbatim>\<open>None\<close> (the column is there and the value is missing), or a string. A dataset
  has the same columns on every row, so either every row has \<open>NoTitle\<close> or none has.
\<close>

datatype title = NoTitle | NullTitle | Title string

record corpus_item =
  c_id :: string
  c_title :: title
  c_text :: string

record query_item =
  q_id :: string
  q_text :: string

text \<open>A target device: \<^verbatim>\<open>'cuda:i'\<close> or \<^verbatim>\<open>'cpu'\<close>.\<close>

datatype device = Cuda nat | Cpu

text \<open>
  What the source calls and does not define. An embedding matrix is the list of its rows,
  of an arbitrary vector type \<open>'v\<close>; a score matrix is the list of its rows, one row per
  query.
  \<^item> \<open>encode_queries\<close>: \<^verbatim>\<open>self.model.encode_queries\<close> on one batch of query texts;
  \<^item> \<open>encode_corpus\<close>: the sentences \<^verbatim>\<open>encode_corpus_parallel\<close> builds from one corpus batch,
    encoded by \<^verbatim>\<open>model.encode\<close> in the worker;
  \<^item> \<open>cos_sim\<close>, \<open>dot_score\<close>: the two functions imported from \<^verbatim>\<open>.util\<close>;
  \<^item> \<open>topk\<close>: \<^verbatim>\<open>torch.topk(row, k, largest=True, sorted=False)\<close> on one row, as the list of
    the selected positions (the values are the row's entries at these positions);
  \<^item> \<open>sched\<close>: which worker takes a chunk off the shared input queue;
  \<^item> \<open>float_column\<close>: the value read back from the metric's \<^verbatim>\<open>Value("float")\<close> column
    (line 25) for a value written to it;
  \<^item> \<open>cuda_is_available\<close>, \<open>cuda_device_count\<close>: the two \<^verbatim>\<open>torch.cuda\<close> queries.
\<close>

record 'v externals =
  encode_queries :: "string list \<Rightarrow> 'v list"
  encode_corpus :: "corpus_item list \<Rightarrow> 'v list"
  cos_sim :: "'v list \<Rightarrow> 'v list \<Rightarrow> score list list"
  dot_score :: "'v list \<Rightarrow> 'v list \<Rightarrow> score list list"
  topk :: "score list \<Rightarrow> nat \<Rightarrow> nat list"
  sched :: "nat \<Rightarrow> nat"
  float_column :: "score \<Rightarrow> score"
  cuda_is_available :: bool
  cuda_device_count :: nat

text \<open>The fields of \<^verbatim>\<open>DenseRetrievalParallelExactSearch\<close> that \<^verbatim>\<open>search\<close> and the worker use.\<close>

record 'v searcher =
  batch_size :: int
  target_devices :: "device list"
  corpus_chunk_size :: "int option"
  results :: results
  query_embeddings :: "'v list option"
  top_k :: "int option"
  score_function :: "string option"
  sort_corpus :: bool

text \<open>
  \<^verbatim>\<open>self.score_functions = {'cos_sim': cos_sim, 'dot': dot_score}\<close> (line 53); the field is
  never assigned again.
\<close>

definition score_functions ::
  "'v externals \<Rightarrow> string \<rightharpoonup> ('v list \<Rightarrow> 'v list \<Rightarrow> score list list)" where
  "score_functions ext = [''cos_sim'' \<mapsto> cos_sim ext, ''dot'' \<mapsto> dot_score ext]"

text \<open>\<^verbatim>\<open>__init__\<close>; \<open>None\<close> is Python's \<^verbatim>\<open>None\<close> default of the two optional arguments.\<close>

definition init :: "'v externals \<Rightarrow> int \<Rightarrow> int option \<Rightarrow> device list option \<Rightarrow> 'v searcher" where
  "init ext batch_size_arg corpus_chunk_size_arg target_devices_arg =
     \<lparr> batch_size = batch_size_arg,
       target_devices =
         (case target_devices_arg of
            None \<Rightarrow>
              if cuda_is_available ext then map Cuda [0..<cuda_device_count ext]
              else replicate 4 Cpu
          | Some ds \<Rightarrow> ds),
       corpus_chunk_size = corpus_chunk_size_arg,
       results = [],
       query_embeddings = None,
       top_k = None,
       score_function = None,
       sort_corpus = True \<rparr>"

section \<open>The worker (\<^verbatim>\<open>_encode_multi_process_worker\<close>)\<close>

text \<open>\<^verbatim>\<open>DummyMetric.warmup\<close> adds one example: five ones, five ones, batch index -1.\<close>

definition warmup :: row where
  "warmup = \<lparr> cos_scores_top_k_values = replicate 5 (Fin 1),
              cos_scores_top_k_idx = replicate 5 1,
              batch_index = -1 \<rparr>"

text \<open>\<^verbatim>\<open>cos_scores[torch.isnan(cos_scores)] = -1\<close>, entry by entry.\<close>

definition replace_nan :: "score \<Rightarrow> score" where
  "replace_nan s = (case s of NaN \<Rightarrow> Fin (-1) | Fin x \<Rightarrow> Fin x)"

text \<open>
  The body of the worker's loop for one queue item \<^verbatim>\<open>(id, batch_size, sentences)\<close>: the
  examples it adds to the metric, or the exception it dies of. \<open>sel\<close> is
  \<^verbatim>\<open>cos_scores_top_k_idx\<close> before the transposition (one list of positions per query);
  the examples are the rows of the two transposed tensors, each with batch index \<open>id\<close>.
\<close>

definition process_batch ::
  "'v externals \<Rightarrow> 'v searcher \<Rightarrow> nat \<times> corpus_item list \<Rightarrow> error + row list" where
  "process_batch ext self item =
     (let corpus_embeds = encode_corpus ext (snd item) in
      case score_function self of
        None \<Rightarrow> Inl KeyError
      | Some name \<Rightarrow>
     (case score_functions ext name of
        None \<Rightarrow> Inl KeyError
      | Some f \<Rightarrow>
     (case query_embeddings self of
        None \<Rightarrow> Inl AttributeError
      | Some q_embeds \<Rightarrow>
     (let cos_scores = map (map replace_nan) (f q_embeds corpus_embeds) in
      case top_k self of
        None \<Rightarrow> Inl TypeError
      | Some t \<Rightarrow>
          if length cos_scores < 2 then Inl IndexError
          else
            let k = min (t + 1) (int (length (cos_scores ! 1))) in
            if k < 0 then Inl TopkRangeError
            else
              let sel = map (\<lambda>r. topk ext r (nat k)) cos_scores in
              Inr (map (\<lambda>j. \<lparr> cos_scores_top_k_values =
                                  map (\<lambda>(r, ix). r ! (ix ! j)) (zip cos_scores sel),
                                cos_scores_top_k_idx = map (\<lambda>ix. int (ix ! j)) sel,
                                batch_index = int (fst item) \<rparr>)
                       [0..<nat k])))))"

text \<open>
  The \<^verbatim>\<open>while True\<close> loop over the items this worker takes off the queue: the examples
  written, and the exception that killed the worker, if any. With the queue drained the
  worker waits in \<^verbatim>\<open>input_queue.get()\<close> until the pool is stopped.
\<close>

fun worker_loop ::
  "'v externals \<Rightarrow> 'v searcher \<Rightarrow> (nat \<times> corpus_item list) list \<Rightarrow> row list \<times> error option" where
  "worker_loop ext self [] = ([], None)"
| "worker_loop ext self (item # items) =
     (case process_batch ext self item of
        Inl e \<Rightarrow> ([], Some e)
      | Inr rows \<Rightarrow>
          (case worker_loop ext self items of (rest, eo) \<Rightarrow> (rows @ rest, eo)))"

definition encode_multi_process_worker ::
  "'v externals \<Rightarrow> 'v searcher \<Rightarrow> (nat \<times> corpus_item list) list \<Rightarrow> row list \<times> error option" where
  "encode_multi_process_worker ext self items =
     (case worker_loop ext self items of (rows, eo) \<Rightarrow> (warmup # rows, eo))"

section \<open>The coordinator (\<^verbatim>\<open>search\<close>)\<close>

text \<open>
  \<^verbatim>\<open>DataLoader(dataset, batch_size=n)\<close> with the default sampler: consecutive batches of
  \<open>n\<close> items, the last one shorter when \<open>n\<close> does not divide the length. (The constructor
  refuses \<open>n \<le> 0\<close>; \<^verbatim>\<open>search\<close> below checks that before it calls \<open>batches\<close>.)
\<close>

function batches :: "nat \<Rightarrow> 'a list \<Rightarrow> 'a list list" where
  "batches n xs = (if n = 0 \<or> xs = [] then [] else take n xs # batches n (drop n xs))"
  by pat_completeness auto
termination
  by (relation "measure (\<lambda>(n, xs). length xs)") auto

declare batches.simps [simp del]

text \<open>\<^verbatim>\<open>enumerate\<close>\<close>

definition enumerate_from0 :: "'a list \<Rightarrow> (nat \<times> 'a) list" where
  "enumerate_from0 xs = zip [0..<length xs] xs"

text \<open>
  Line 77, when the chunk size is unset:
  \<^verbatim>\<open>min(math.ceil(len(corpus) / len(self.target_devices) / 10), 5000)\<close>. The two divisions
  are float divisions; the quotient is taken here as the exact real number. (The float
  result of \<^verbatim>\<open>math.ceil\<close> differs from the exact ceiling only where the exact quotient is
  within rounding error of an integer, which needs a corpus or a device count far beyond
  \<open>2 ^ 32\<close>.)
\<close>

definition derive_chunk_size :: "nat \<Rightarrow> nat \<Rightarrow> int" where
  "derive_chunk_size corpus_len n_devices =
     min \<lceil>real corpus_len / real n_devices / 10\<rceil> 5000"

text \<open>Line 77: the value assigned to \<^verbatim>\<open>self.corpus_chunk_size\<close>, or the division by zero.\<close>

definition chunk_size_or_default :: "'v searcher \<Rightarrow> nat \<Rightarrow> error + int" where
  "chunk_size_or_default self corpus_len =
     (case corpus_chunk_size self of
        None \<Rightarrow>
          if length (target_devices self) = 0 then Inl ZeroDivisionError
          else Inr (derive_chunk_size corpus_len (length (target_devices self)))
      | Some c \<Rightarrow> Inr c)"

text \<open>
  Line 82, for one row: \<^verbatim>\<open>len(x.get("title", "") + x.get("text", ""))\<close>. Without a title
  key the default \<^verbatim>\<open>""\<close> is taken; a title that is \<^verbatim>\<open>None\<close> cannot be added to a string.
\<close>

definition doc_len :: "corpus_item \<Rightarrow> error + nat" where
  "doc_len x =
     (case c_title x of
        NoTitle \<Rightarrow> Inr (length (c_text x))
      | NullTitle \<Rightarrow> Inl TypeError
      | Title t \<Rightarrow> Inr (length (t @ c_text x)))"

text \<open>Line 82, \<^verbatim>\<open>corpus.map\<close>: the new column, or the first exception.\<close>

fun doc_lens :: "corpus_item list \<Rightarrow> error + nat list" where
  "doc_lens [] = Inr []"
| "doc_lens (x # xs) =
     (case doc_len x of
        Inl e \<Rightarrow> Inl e
      | Inr n \<Rightarrow> (case doc_lens xs of Inl e \<Rightarrow> Inl e | Inr ns \<Rightarrow> Inr (n # ns)))"

text \<open>
  Lines 82 and 83: the corpus ordered by the new column, longest first. The order among
  items of equal length is the library's; the model keeps their order.
\<close>

definition sort_by_len :: "corpus_item list \<Rightarrow> error + corpus_item list" where
  "sort_by_len corpus =
     (case doc_lens corpus of
        Inl e \<Rightarrow> Inl e
      | Inr ns \<Rightarrow> Inr (map snd (sort_key (\<lambda>p. - int (fst p)) (zip ns corpus))))"

text \<open>
  What a run leaves behind besides its result: the calls to the query encoder, the chunks
  put on the work queue (a corpus chunk is encoded only by the worker that takes it off
  the queue), and the workers that died of an exception.
\<close>

datatype event =
    EncodeQueries "string list"
  | Dispatch nat
  | WorkerDied nat error

text \<open>
  Modelled from the spec: the worker pool and the Result Collector
  (\<^verbatim>\<open>start_multi_process_pool\<close>, \<^verbatim>\<open>encode_corpus_parallel\<close>, \<^verbatim>\<open>stop_multi_process_pool\<close>
  and the storage behind \<^verbatim>\<open>add_batch\<close> and \<^verbatim>\<open>compute\<close> are not in the source). There is
  one worker per target device; every chunk put on the queue is taken by exactly one
  worker (\<open>sched\<close> says which); each worker runs \<open>encode_multi_process_worker\<close> on the chunks
  it takes, in dispatch order. A worker that dies leaves its remaining chunks out.
\<close>

definition run_pool ::
  "'v externals \<Rightarrow> 'v searcher \<Rightarrow> (nat \<times> corpus_item list) list \<Rightarrow> (row list \<times> error option) list" where
  "run_pool ext self items =
     (let n_workers = length (target_devices self) in
      map (\<lambda>p. encode_multi_process_worker ext self
                  (filter (\<lambda>item. sched ext (fst item) mod n_workers = p) items))
          [0..<n_workers])"

text \<open>An example as it is read back: its values have gone through the float column.\<close>

definition stored :: "'v externals \<Rightarrow> row \<Rightarrow> row" where
  "stored ext r =
     r\<lparr> cos_scores_top_k_values := map (float_column ext) (cos_scores_top_k_values r) \<rparr>"

text \<open>
  Modelled from the spec: \<^verbatim>\<open>metric.compute()\<close> returns every example ever added,
  sentinels included, worker by worker in write order.
\<close>

definition read_all :: "'v externals \<Rightarrow> (row list \<times> error option) list \<Rightarrow> row list" where
  "read_all ext outs = map (stored ext) (concat (map fst outs))"

definition died :: "(row list \<times> error option) list \<Rightarrow> event list" where
  "died outs =
     concat (map (\<lambda>(p, out). case snd out of None \<Rightarrow> [] | Some e \<Rightarrow> [WorkerDied p e])
                 (enumerate_from0 outs))"

text \<open>Lines 80 to 83: the corpus in the order it is streamed and resolved against.\<close>

definition reorder :: "'v searcher \<Rightarrow> corpus_item list \<Rightarrow> error + corpus_item list" where
  "reorder self corpus = (if sort_corpus self then sort_by_len corpus else Inr corpus)"

text \<open>
  Lines 86 and 91 to 96: the query texts in batches of the chunk size, each batch
  encoded by the model (the list that \<^verbatim>\<open>torch.cat\<close> then concatenates).
\<close>

definition encode_query_batches :: "'v externals \<Rightarrow> int \<Rightarrow> query_item list \<Rightarrow> 'v list list" where
  "encode_query_batches ext chunk_size queries =
     map (\<lambda>b. encode_queries ext (map q_text b)) (batches (nat chunk_size) queries)"

text \<open>Lines 100 to 102: what the workers read from the object.\<close>

definition set_job :: "'v searcher \<Rightarrow> 'v list \<Rightarrow> int \<Rightarrow> string \<Rightarrow> 'v searcher" where
  "set_job self q_embeddings top_k_arg score_function_arg =
     self\<lparr> query_embeddings := Some q_embeddings,
           top_k := Some top_k_arg,
           score_function := Some score_function_arg \<rparr>"

text \<open>Lines 111 to 114: the chunks put on the queue, each with its \<^verbatim>\<open>chunk_id\<close>.\<close>

definition dispatch :: "int \<Rightarrow> corpus_item list \<Rightarrow> (nat \<times> corpus_item list) list" where
  "dispatch chunk_size corpus = enumerate_from0 (batches (nat chunk_size) corpus)"

text \<open>
  Lines 86 to 145, with \<open>chunk_size\<close> the value of \<^verbatim>\<open>self.corpus_chunk_size\<close> that lines
  77 and 78 left and \<open>corpus\<close> the corpus as lines 80 to 83 left it. The result is what
  \<^verbatim>\<open>search\<close> returns or raises, the object as the call leaves it, and the events of the
  run. With no worker at all nothing ever takes a chunk off the queue, and the
  coordinator waits for ever (\<open>PoolBlocked\<close>).
\<close>

definition run_job ::
  "'v externals \<Rightarrow> 'v searcher \<Rightarrow> int \<Rightarrow> corpus_item list \<Rightarrow> query_item list \<Rightarrow> int \<Rightarrow> string
     \<Rightarrow> (error + results) \<times> 'v searcher \<times> event list" where
  "run_job ext self chunk_size corpus queries top_k_arg score_function_arg =
     (if chunk_size \<le> 0 then (Inl (BatchSizeError chunk_size), self, [])
      else
        let q_embeds = encode_query_batches ext chunk_size queries;
            encoded = map (\<lambda>b. EncodeQueries (map q_text b)) (batches (nat chunk_size) queries)
        in
        if q_embeds = [] then (Inl CatEmptyError, self, encoded)
        else
          let self1 = set_job self (concat q_embeds) top_k_arg score_function_arg;
              items = dispatch chunk_size corpus;
              dispatched = map (\<lambda>item. Dispatch (fst item)) items
          in
          if length (target_devices self) = 0
          then (Inl PoolBlocked, self1, encoded @ dispatched)
          else
            let outs = run_pool ext self1 items;
                merged = format_results (map q_id queries) (map c_id corpus)
                           (length (concat q_embeds)) chunk_size (read_all ext outs);
                self2 = self1\<lparr> results := fst merged \<rparr>
            in ((case snd merged of None \<Rightarrow> Inr (fst merged) | Some e \<Rightarrow> Inl e),
                self2, encoded @ dispatched @ died outs))"

text \<open>Lines 80 to 145: the reordering, which may raise, then the rest.\<close>

definition search_job ::
  "'v externals \<Rightarrow> 'v searcher \<Rightarrow> int \<Rightarrow> corpus_item list \<Rightarrow> query_item list \<Rightarrow> int \<Rightarrow> string
     \<Rightarrow> (error + results) \<times> 'v searcher \<times> event list" where
  "search_job ext self chunk_size corpus0 queries top_k_arg score_function_arg =
     (case reorder self corpus0 of
        Inl e \<Rightarrow> (Inl e, self, [])
      | Inr corpus \<Rightarrow> run_job ext self chunk_size corpus queries top_k_arg score_function_arg)"

text \<open>\<^verbatim>\<open>search\<close>: lines 74 and 75, then 77 and 78, then the job.\<close>

definition search ::
  "'v externals \<Rightarrow> 'v searcher \<Rightarrow> corpus_item list \<Rightarrow> query_item list \<Rightarrow> int \<Rightarrow> string
     \<Rightarrow> (error + results) \<times> 'v searcher \<times> event list" where
  "search ext self corpus queries top_k_arg score_function_arg =
     (case score_functions ext score_function_arg of
        None \<Rightarrow> (Inl (ScoreFunctionError score_function_arg), self, [])
      | Some _ \<Rightarrow>
          (case chunk_size_or_default self (length corpus) of
             Inl e \<Rightarrow> (Inl e, self, [])
           | Inr c \<Rightarrow>
               let chunk_size = min c (int (length corpus) - 1) in
               search_job ext (self\<lparr> corpus_chunk_size := Some chunk_size \<rparr>) chunk_size
                 corpus queries top_k_arg score_function_arg))"

section \<open>Specification vocabulary\<close>

text \<open>No query id is a key of its own inner dictionary.\<close>

definition no_self :: "results \<Rightarrow> bool" where
  "no_self res = (\<forall>q m. (q, m) \<in> set res \<longrightarrow> q \<notin> fst ` set m)"

text \<open>The keys and the size of \<^verbatim>\<open>results[q]\<close> (nothing when \<open>q\<close> is no key).\<close>

definition rkeys :: "results \<Rightarrow> string \<Rightarrow> string set" where
  "rkeys res q = (case map_of res q of None \<Rightarrow> {} | Some m \<Rightarrow> fst ` set m)"

definition rlen :: "results \<Rightarrow> string \<Rightarrow> nat" where
  "rlen res q = (case map_of res q of None \<Rightarrow> 0 | Some m \<Rightarrow> length m)"

text \<open>The chunk ids a run put on the queue, in order.\<close>

fun dispatched :: "event list \<Rightarrow> nat list" where
  "dispatched [] = []"
| "dispatched (Dispatch b # evs) = b # dispatched evs"
| "dispatched (ev # evs) = dispatched evs"

text \<open>The examples that are not sentinels.\<close>

abbreviation real_rows :: "row list \<Rightarrow> row list" where
  "real_rows rows \<equiv> filter (\<lambda>r. batch_index r \<noteq> -1) rows"

text \<open>
  The order \<^verbatim>\<open>torch.topk\<close> selects by: numbers by their value, a not-a-number above
  every number.
\<close>

definition score_le :: "score \<Rightarrow> score \<Rightarrow> bool" where
  "score_le a b = (case b of NaN \<Rightarrow> True | Fin y \<Rightarrow> (case a of NaN \<Rightarrow> False | Fin x \<Rightarrow> x \<le> y))"

text \<open>
  What \<^verbatim>\<open>torch.topk(row, k, largest=True, sorted=False)\<close> promises for \<open>k\<close> within the row:
  \<open>k\<close> distinct positions of the row, and no position left out holds a larger entry than
  a selected one. The order of the selected positions and the choice among equal entries
  are left open.
\<close>

definition topk_selects :: "(score list \<Rightarrow> nat \<Rightarrow> nat list) \<Rightarrow> bool" where
  "topk_selects tk =
     (\<forall>r k. k \<le> length r \<longrightarrow>
        length (tk r k) = k \<and> distinct (tk r k) \<and>
        (\<forall>i \<in> set (tk r k). i < length r \<and>
           (\<forall>j < length r. j \<notin> set (tk r k) \<longrightarrow> score_le (r ! j) (r ! i))))"

text \<open>
  The shapes the encoders and the similarity functions promise: one embedding per text,
  and a score matrix with one row per query and one column per corpus item.
\<close>

definition shaped :: "'v externals \<Rightarrow> bool" where
  "shaped ext =
     ((\<forall>ts. length (encode_queries ext ts) = length ts) \<and>
      (\<forall>c. length (encode_corpus ext c) = length c) \<and>
      (\<forall>f \<in> {cos_sim ext, dot_score ext}. \<forall>Q C.
         length (f Q C) = length Q \<and> (\<forall>r \<in> set (f Q C). length r = length C)))"

text \<open>
  A record the merge can process for query index \<open>qi\<close>: a sentinel, or a record whose
  three lookups (index, value, corpus id) are in range.
\<close>

definition row_ok :: "string list \<Rightarrow> int \<Rightarrow> nat \<Rightarrow> row \<Rightarrow> bool" where
  "row_ok cids cs qi r =
     (batch_index r = -1 \<or>
      (\<exists>ix sc cid. py_get (cos_scores_top_k_idx r) (int qi) = Inr ix
         \<and> py_get (cos_scores_top_k_values r) (int qi) = Inr sc
         \<and> py_get cids (ix + batch_index r * cs) = Inr cid))"

text \<open>A row written for chunk \<open>item\<close> by a well-configured worker.\<close>

definition row_of :: "nat \<Rightarrow> nat \<times> corpus_item list \<Rightarrow> row \<Rightarrow> bool" where
  "row_of n_q item r =
     (batch_index r = int (fst item)
      \<and> length (cos_scores_top_k_values r) = n_q
      \<and> length (cos_scores_top_k_idx r) = n_q
      \<and> (\<forall>qi < n_q. 0 \<le> cos_scores_top_k_idx r ! qi
                    \<and> cos_scores_top_k_idx r ! qi < int (length (snd item))))"

section \<open>A toy model and a toy corpus\<close>

text \<open>
  One-dimensional embeddings: the vector of a text is its length minus one, so that a
  one-letter text has the zero vector. The dot product is the product; the cosine
  similarity of two one-dimensional vectors is the product of their signs, and 0/0
  (not a number) when one of them is zero. \<open>topk_desc\<close> selects the positions of the \<open>k\<close>
  largest entries, larger first, earlier first among equals (a not-a-number counts as
  largest, as \<^verbatim>\<open>torch.topk\<close> has it). The float column gives back what was written (the
  toy scores are small integers).
\<close>

definition neg_key :: "score \<Rightarrow> real option" where
  "neg_key s = (case s of NaN \<Rightarrow> None | Fin x \<Rightarrow> Some (- x))"

definition topk_desc :: "score list \<Rightarrow> nat \<Rightarrow> nat list" where
  "topk_desc r k = take k (sort_key (\<lambda>i. neg_key (r ! i)) [0..<length r])"

definition toy_vec :: "string \<Rightarrow> int" where
  "toy_vec s = int (length s) - 1"

definition toy_dot :: "int list \<Rightarrow> int list \<Rightarrow> score list list" where
  "toy_dot qs cs = map (\<lambda>q. map (\<lambda>c. Fin (real_of_int (q * c))) cs) qs"

definition toy_cos :: "int list \<Rightarrow> int list \<Rightarrow> score list list" where
  "toy_cos qs cs =
     map (\<lambda>q. map (\<lambda>c. if q = 0 \<or> c = 0 then NaN else Fin (real_of_int (sgn q * sgn c))) cs) qs"

definition toy :: "int externals" where
  "toy = \<lparr> encode_queries = map toy_vec,
           encode_corpus = map (\<lambda>x. toy_vec (c_text x)),
           cos_sim = toy_cos,
           dot_score = toy_dot,
           topk = topk_desc,
           sched = (\<lambda>chunk_id. chunk_id),
           float_column = (\<lambda>s. s),
           cuda_is_available = False,
           cuda_device_count = 0 \<rparr>"

definition doc :: "string \<Rightarrow> string \<Rightarrow> corpus_item" where
  "doc i t = \<lparr> c_id = i, c_title = NoTitle, c_text = t \<rparr>"

definition query :: "string \<Rightarrow> string \<Rightarrow> query_item" where
  "query i t = \<lparr> q_id = i, q_text = t \<rparr>"

text \<open>
  The data of the examples below: corpora (one holds a document whose id is a query's
  id, one a document with the zero vector), two queries, the object as a worker sees it
  during a job, and records as the toy workers write them.
\<close>

definition toy_corpus :: "corpus_item list" where
  "toy_corpus = [doc ''d0'' ''abcde'', doc ''q0'' ''abcd'', doc ''d2'' ''abc'', doc ''d3'' ''ab'']"

definition toy_queries :: "query_item list" where
  "toy_queries = [query ''q0'' ''abcd'', query ''q1'' ''abc'']"

definition toy_worker_state :: "int searcher" where
  "toy_worker_state = (init toy 128 (Some 2) (Some [Cpu, Cpu]))
      \<lparr> query_embeddings := Some [3, 2], top_k := Some 0, score_function := Some ''dot'' \<rparr>"

definition toy_row0 :: row where
  "toy_row0 = \<lparr> cos_scores_top_k_values = [Fin 12, Fin 8], cos_scores_top_k_idx = [0, 0], batch_index = 0 \<rparr>"

definition toy_row1 :: row where
  "toy_row1 = \<lparr> cos_scores_top_k_values = [Fin 6, Fin 4], cos_scores_top_k_idx = [0, 0], batch_index = 1 \<rparr>"

definition toy_corpus7 :: "corpus_item list" where
  "toy_corpus7 = [doc ''d0'' ''abcdefgh'', doc ''d1'' ''abcdefg'', doc ''d2'' ''abcdef'',
                  doc ''d3'' ''abcde'', doc ''d4'' ''abcd'', doc ''d5'' ''abc'', doc ''d6'' ''ab'']"

definition toy_row5 :: row where
  "toy_row5 = \<lparr> cos_scores_top_k_values = [Fin 6], cos_scores_top_k_idx = [2], batch_index = 1 \<rparr>"

definition toy_row0b :: row where
  "toy_row0b = \<lparr> cos_scores_top_k_values = [Fin 9, Fin 6], cos_scores_top_k_idx = [1, 1], batch_index = 0 \<rparr>"

definition toy_zero_doc :: corpus_item where
  "toy_zero_doc = doc ''z'' ''a''"

definition toy_corpus_zero :: "corpus_item list" where
  "toy_corpus_zero = [doc ''d0'' ''abcde'', doc ''d2'' ''abc'', doc ''d3'' ''ab'', toy_zero_doc]"

definition toy_corpus11 :: "corpus_item list" where
  "toy_corpus11 =
     [doc ''d00'' ''aaaaaaaaaaaa'', doc ''d01'' ''aaaaaaaaaaa'', doc ''d02'' ''aaaaaaaaaa'',
      doc ''d03'' ''aaaaaaaaa'', doc ''d04'' ''aaaaaaaa'', doc ''d05'' ''aaaaaaa'',
      doc ''d06'' ''aaaaaa'', doc ''d07'' ''aaaaa'', doc ''d08'' ''aaaa'',
      doc ''d09'' ''aaa'', doc ''d10'' ''aa'']"

text \<open>
  A second toy model, whose cosine clamps the norms away from zero: a zero vector then
  scores 0 against everything instead of not-a-number.
\<close>

definition toy_cos_clamped :: "int list \<Rightarrow> int list \<Rightarrow> score list list" where
  "toy_cos_clamped qs cs = map (\<lambda>q. map (\<lambda>c. Fin (real_of_int (sgn q * sgn c))) cs) qs"

definition toy_clamped :: "int externals" where
  "toy_clamped = toy\<lparr> cos_sim := toy_cos_clamped \<rparr>"

definition toy_cos_state :: "int searcher" where
  "toy_cos_state = toy_worker_state\<lparr> top_k := Some 2, score_function := Some ''cos_sim'' \<rparr>"

section \<open>The merge stage: invariants\<close>

lemma map_of_update_fst: "fst ` set (AList.update k v al) = insert k (fst ` set al)"
  by (simp add: dom_update)

lemma set_update_subset: "set (AList.update k v al) \<subseteq> insert (k, v) (set al)"
  by (induction al) auto

lemma no_self_set_result:
  assumes "no_self res" "set_result res q c sc = Inr res'" "c \<noteq> q"
  shows "no_self res'"
proof -
  from assms(2) obtain m where m: "map_of res q = Some m"
    and res': "res' = AList.update q (AList.update c sc m) res"
    by (auto simp: set_result_def split: option.splits)
  have "(q, m) \<in> set res" using m by (rule map_of_SomeD)
  with assms(1) have qm: "q \<notin> fst ` set m" by (auto simp: no_self_def)
  show ?thesis unfolding no_self_def
  proof (intro allI impI notI)
    fix k v assume kv: "(k, v) \<in> set res'" and "k \<in> fst ` set v"
    then obtain x where "(k, x) \<in> set v" by auto
    from kv res' set_update_subset[of q "AList.update c sc m" res]
    have "(k, v) = (q, AList.update c sc m) \<or> (k, v) \<in> set res" by auto
    then show False
    proof
      assume "(k, v) = (q, AList.update c sc m)"
      then have "k = q" "v = AList.update c sc m" by auto
      with \<open>(k, x) \<in> set v\<close> have "q \<in> fst ` set (AList.update c sc m)" by force
      then show False using qm assms(3) by (simp add: dom_update)
    next
      assume "(k, v) \<in> set res"
      with assms(1) \<open>(k, x) \<in> set v\<close> show False by (force simp: no_self_def)
    qed
  qed
qed

lemma no_self_merge_rows:
  "no_self res \<Longrightarrow> no_self (fst (merge_rows q qi cids cs rows res))"
proof (induction rows arbitrary: res)
  case Nil then show ?case by simp
next
  case (Cons r rs)
  show ?case
  proof (cases "batch_index r = -1")
    case True then show ?thesis using Cons by simp
  next
    case False
    then show ?thesis using Cons no_self_set_result[OF Cons.prems]
      by (auto simp: Let_def split: sum.splits)
  qed
qed

lemma no_self_merge_queries:
  "no_self res \<Longrightarrow> no_self (fst (merge_queries qids cids cs rows qis res))"
proof (induction qis arbitrary: res)
  case Nil then show ?case by simp
next
  case (Cons qi qis)
  show ?case
  proof (cases "py_get qids (int qi)")
    case (Inl e) then show ?thesis using Cons.prems by simp
  next
    case (Inr q)
    obtain res' eo where mr: "merge_rows q qi cids cs rows res = (res', eo)" by force
    have ns: "no_self res'" using no_self_merge_rows[OF Cons.prems, of q qi cids cs rows] mr by simp
    show ?thesis using Inr mr ns Cons.IH[OF ns] by (cases eo) auto
  qed
qed

lemma set_empty_results: "(q, m) \<in> set (fold (\<lambda>qid. AList.update qid []) qids acc) \<Longrightarrow> (q, m) \<in> set acc \<or> m = []"
proof (induction qids arbitrary: acc)
  case Nil then show ?case by simp
next
  case (Cons a qids)
  from Cons.IH[of "AList.update a [] acc"] Cons.prems
  have "(q, m) \<in> set (AList.update a [] acc) \<or> m = []" by simp
  then show ?case using set_update_subset[of a "[]" acc] by auto
qed

lemma no_self_empty_results: "no_self (empty_results qids)"
  unfolding no_self_def empty_results_def
  using set_empty_results[of _ _ qids "[]"] by fastforce

subsection \<open>sentinel filter\<close>

lemma merge_rows_filter:
  "merge_rows q qi cids cs (filter (\<lambda>r. batch_index r \<noteq> -1) rows) res = merge_rows q qi cids cs rows res"
proof (induction rows arbitrary: res)
  case Nil then show ?case by simp
next
  case (Cons r rs)
  show ?case
  proof (cases "batch_index r = -1")
    case True then show ?thesis using Cons by simp
  next
    case False
    then show ?thesis using Cons
      by (simp add: Let_def split: sum.splits)
  qed
qed

lemma merge_queries_filter:
  "merge_queries qids cids cs (filter (\<lambda>r. batch_index r \<noteq> -1) rows) qis res = merge_queries qids cids cs rows qis res"
  by (induction qis arbitrary: res) (simp_all add: merge_rows_filter split: sum.splits prod.splits option.splits)

lemma format_results_filter:
  "format_results qids cids n cs (filter (\<lambda>r. batch_index r \<noteq> -1) rows) = format_results qids cids n cs rows"
  by (simp add: format_results_def merge_queries_filter)

subsection \<open>sizes\<close>

lemma length_update_le: "length (AList.update k v al) \<le> Suc (length al)"
  by (induction al) auto

lemma set_result_map_of:
  assumes "set_result res q c sc = Inr res'"
  shows "\<exists>m. map_of res q = Some m \<and> map_of res' = (map_of res)(q \<mapsto> AList.update c sc m)"
  using assms by (auto simp: set_result_def update_conv' split: option.splits)

lemma set_result_rlen:
  assumes "set_result res q c sc = Inr res'"
  shows "rlen res' q' \<le> rlen res q' + (if q' = q then 1 else 0)"
proof -
  from set_result_map_of[OF assms] obtain m where
    m: "map_of res q = Some m" and r: "map_of res' = (map_of res)(q \<mapsto> AList.update c sc m)" by blast
  show ?thesis using m length_update_le[of c sc m] by (simp add: rlen_def r)
qed

lemma set_result_rkeys:
  assumes "set_result res q c sc = Inr res'"
  shows "rkeys res q' \<subseteq> rkeys res' q'" "c \<in> rkeys res' q"
proof -
  from set_result_map_of[OF assms] obtain m where
    m: "map_of res q = Some m" and r: "map_of res' = (map_of res)(q \<mapsto> AList.update c sc m)" by blast
  show "rkeys res q' \<subseteq> rkeys res' q'" using m by (auto simp: rkeys_def r dom_update)
  show "c \<in> rkeys res' q" by (simp add: rkeys_def r dom_update)
qed

lemma merge_rows_rlen:
  "rlen (fst (merge_rows q qi cids cs rows res)) q'
     \<le> rlen res q' + (if q' = q then length (real_rows rows) else 0)"
proof (induction rows arbitrary: res)
  case Nil then show ?case by simp
next
  case (Cons r rs)
  show ?case
  proof (cases "batch_index r = -1")
    case True then show ?thesis using Cons[of res] by (auto split: if_splits)
  next
    case False
    have step: "rlen (fst (merge_rows q qi cids cs rs res')) q' \<le> rlen res q' + (if q' = q then Suc (length (real_rows rs)) else 0)"
      if "set_result res q c sc = Inr res'" for c sc res'
      using Cons[of res'] set_result_rlen[OF that, of q'] by (auto split: if_splits)
    have same: "rlen (fst (merge_rows q qi cids cs rs res)) q' \<le> rlen res q' + (if q' = q then Suc (length (real_rows rs)) else 0)"
      using Cons[of res] by (auto split: if_splits)
    show ?thesis using False step same
      by (auto simp: Let_def split: sum.splits)
  qed
qed

lemma merge_queries_rlen:
  "rlen (fst (merge_queries qids cids cs rows qis res)) q
     \<le> rlen res q + length (real_rows rows) * length (filter (\<lambda>qi. py_get qids (int qi) = Inr q) qis)"
proof (induction qis arbitrary: res)
  case Nil then show ?case by simp
next
  case (Cons qi qis)
  show ?case
  proof (cases "py_get qids (int qi)")
    case (Inl e) then show ?thesis by simp
  next
    case (Inr qid)
    obtain res' eo where mr: "merge_rows qid qi cids cs rows res = (res', eo)" by force
    have b1: "rlen res' q \<le> rlen res q + (if q = qid then length (real_rows rows) else 0)"
      using merge_rows_rlen[of qid qi cids cs rows res q] mr by simp
    show ?thesis
    proof (cases eo)
      case (Some e)
      then show ?thesis using Inr mr b1 by (auto split: if_splits)
    next
      case None
      have "rlen (fst (merge_queries qids cids cs rows qis res')) q
        \<le> rlen res' q + length (real_rows rows) * length (filter (\<lambda>qi. py_get qids (int qi) = Inr q) qis)"
        by (rule Cons.IH)
      then show ?thesis using Inr mr b1 None by (auto split: if_splits)
    qed
  qed
qed

lemma map_of_fold_update_nil:
  "map_of (fold (\<lambda>qid. AList.update qid []) qids acc) q = Some m \<Longrightarrow> map_of acc q = Some m \<or> m = []"
proof (induction qids arbitrary: acc)
  case Nil then show ?case by simp
next
  case (Cons a qids)
  from Cons.IH[OF Cons.prems[simplified]] show ?case
    by (auto simp: update_conv' split: if_splits)
qed

lemma rlen_empty_results: "rlen (empty_results qids) q = 0"
  using map_of_fold_update_nil[of qids "[]" q]
  by (auto simp: rlen_def empty_results_def split: option.splits)

lemma py_get_nat: "py_get xs (int i) = Inr x \<longleftrightarrow> i < length xs \<and> xs ! i = x"
  by (auto simp: py_get_def)

lemma distinct_hits:
  assumes "distinct qids"
  shows "length (filter (\<lambda>qi. py_get qids (int qi) = Inr q) [0..<n]) \<le> 1"
proof -
  let ?f = "filter (\<lambda>qi. py_get qids (int qi) = Inr q) [0..<n]"
  have d: "distinct ?f" by simp
  have "set ?f \<subseteq> {i. i < length qids \<and> qids ! i = q}" by (auto simp: py_get_nat)
  moreover have "card {i. i < length qids \<and> qids ! i = q} \<le> 1"
  proof -
    have "\<And>i j. i \<in> {i. i < length qids \<and> qids ! i = q} \<Longrightarrow> j \<in> {i. i < length qids \<and> qids ! i = q} \<Longrightarrow> i = j"
      using assms by (auto simp: nth_eq_iff_index_eq)
    then show ?thesis by (metis (no_types, lifting) card_le_Suc0_iff_eq One_nat_def finite_nat_set_iff_bounded mem_Collect_eq)
  qed
  moreover have "finite {i. i < length qids \<and> qids ! i = q}" by simp
  ultimately have "card (set ?f) \<le> 1" by (meson card_mono le_trans)
  then show ?thesis using d distinct_card by fastforce
qed

lemma format_results_rlen:
  assumes "distinct qids"
  shows "rlen (fst (format_results qids cids n cs rows)) q \<le> length (real_rows rows)"
proof -
  have "rlen (fst (format_results qids cids n cs rows)) q
      \<le> 0 + length (real_rows rows) * length (filter (\<lambda>qi. py_get qids (int qi) = Inr q) [0..<n])"
    unfolding format_results_def
    using merge_queries_rlen[of qids cids cs rows "[0..<n]" "empty_results qids" q]
    by (simp add: rlen_empty_results)
  also have "\<dots> \<le> length (real_rows rows) * 1"
    using distinct_hits[OF assms, of q n] by (simp del: mult_1_right)
  finally show ?thesis by simp
qed

lemma merge_rows_rkeys_mono:
  "rkeys res q' \<subseteq> rkeys (fst (merge_rows q qi cids cs rows res)) q'"
proof (induction rows arbitrary: res)
  case Nil then show ?case by simp
next
  case (Cons r rs)
  show ?case
  proof (cases "batch_index r = -1")
    case True then show ?thesis using Cons[of res] by simp
  next
    case False
    have step: "rkeys res q' \<subseteq> rkeys (fst (merge_rows q qi cids cs rs res')) q'"
      if "set_result res q c sc = Inr res'" for c sc res'
      using Cons[of res'] set_result_rkeys(1)[OF that, of q'] by blast
    show ?thesis using False step Cons[of res]
      by (auto simp: Let_def split: sum.splits)
  qed
qed

lemma merge_queries_rkeys_mono:
  "rkeys res q' \<subseteq> rkeys (fst (merge_queries qids cids cs rows qis res)) q'"
proof (induction qis arbitrary: res)
  case Nil then show ?case by simp
next
  case (Cons qi qis)
  show ?case
  proof (cases "py_get qids (int qi)")
    case (Inl e) then show ?thesis by simp
  next
    case (Inr qid)
    obtain res' eo where mr: "merge_rows qid qi cids cs rows res = (res', eo)" by force
    have b1: "rkeys res q' \<subseteq> rkeys res' q'"
      using merge_rows_rkeys_mono[of res q' qid qi cids cs rows] mr by simp
    show ?thesis using Inr mr b1 Cons.IH[of res'] by (cases eo) auto
  qed
qed

lemma merge_rows_candidate:
  assumes "merge_rows q qi cids cs rows res = (res', None)" "r \<in> set rows" "batch_index r \<noteq> -1"
  shows "\<exists>ix cid. py_get (cos_scores_top_k_idx r) (int qi) = Inr ix
           \<and> py_get cids (ix + batch_index r * cs) = Inr cid
           \<and> (cid \<noteq> q \<longrightarrow> cid \<in> rkeys res' q)"
  using assms
proof (induction rows arbitrary: res)
  case Nil then show ?case by simp
next
  case (Cons r0 rs)
  show ?case
  proof (cases "batch_index r0 = -1")
    case True
    then have "merge_rows q qi cids cs rs res = (res', None)" "r \<in> set rs"
      using Cons.prems by auto
    then show ?thesis using Cons.IH Cons.prems(3) by blast
  next
    case False
    from Cons.prems(1) False obtain ix sc cid where
      ix: "py_get (cos_scores_top_k_idx r0) (int qi) = Inr ix" and
      sc: "py_get (cos_scores_top_k_values r0) (int qi) = Inr sc" and
      cid: "py_get cids (ix + batch_index r0 * cs) = Inr cid"
      by (auto simp: Let_def split: sum.splits)
    show ?thesis
    proof (cases "cid = q")
      case True
      then have rest: "merge_rows q qi cids cs rs res = (res', None)"
        using Cons.prems(1) False ix sc cid by (simp add: Let_def)
      show ?thesis
      proof (cases "r = r0")
        case True then show ?thesis using ix cid \<open>cid = q\<close> by auto
      next
        case False
        then have "r \<in> set rs" using Cons.prems(2) by simp
        then show ?thesis using Cons.IH[OF rest _ Cons.prems(3)] by blast
      qed
    next
      case neq: False
      then obtain res1 where sr: "set_result res q cid sc = Inr res1"
        and rest: "merge_rows q qi cids cs rs res1 = (res', None)"
        using Cons.prems(1) False ix sc cid by (auto simp: Let_def split: sum.splits)
      show ?thesis
      proof (cases "r = r0")
        case True
        have "cid \<in> rkeys res1 q" by (rule set_result_rkeys(2)[OF sr])
        then have "cid \<in> rkeys res' q"
          using merge_rows_rkeys_mono[of res1 q q qi cids cs rs] rest by auto
        then show ?thesis using True ix cid by auto
      next
        case False
        then have "r \<in> set rs" using Cons.prems(2) by simp
        then show ?thesis using Cons.IH[OF rest _ Cons.prems(3)] by blast
      qed
    qed
  qed
qed

lemma merge_queries_candidate:
  assumes "merge_queries qids cids cs rows qis res = (res', None)" "qi \<in> set qis"
    "r \<in> set rows" "batch_index r \<noteq> -1"
  shows "\<exists>qid ix cid. py_get qids (int qi) = Inr qid
           \<and> py_get (cos_scores_top_k_idx r) (int qi) = Inr ix
           \<and> py_get cids (ix + batch_index r * cs) = Inr cid
           \<and> (cid \<noteq> qid \<longrightarrow> cid \<in> rkeys res' qid)"
  using assms(1,2)
proof (induction qis arbitrary: res)
  case Nil then show ?case by simp
next
  case (Cons q0 qis)
  from Cons.prems(1) obtain qid where qid: "py_get qids (int q0) = Inr qid"
    by (auto split: sum.splits)
  obtain res1 eo where mr: "merge_rows qid q0 cids cs rows res = (res1, eo)" by force
  have eo: "eo = None" using Cons.prems(1) qid mr by (cases eo) auto
  have rest: "merge_queries qids cids cs rows qis res1 = (res', None)"
    using Cons.prems(1) qid mr eo by simp
  show ?case
  proof (cases "qi = q0")
    case True
    from merge_rows_candidate[OF mr[unfolded eo] assms(3,4)] obtain ix cid where
      c: "py_get (cos_scores_top_k_idx r) (int q0) = Inr ix"
         "py_get cids (ix + batch_index r * cs) = Inr cid"
         "cid \<noteq> qid \<longrightarrow> cid \<in> rkeys res1 qid" by blast
    have "rkeys res1 qid \<subseteq> rkeys res' qid"
      using merge_queries_rkeys_mono[of res1 qid qids cids cs rows qis] rest by simp
    then show ?thesis using True qid c by blast
  next
    case False
    then have "qi \<in> set qis" using Cons.prems(2) by simp
    from Cons.IH[OF rest this] show ?thesis .
  qed
qed

lemma rkeys_D: "c \<in> rkeys res q \<Longrightarrow> \<exists>m. map_of res q = Some m \<and> c \<in> fst ` set m"
  by (auto simp: rkeys_def split: option.splits)

lemma format_results_candidate:
  assumes "format_results qids cids n cs rows = (res, None)" "qi < n"
    "r \<in> set rows" "batch_index r \<noteq> -1"
  shows "\<exists>qid ix cid. py_get qids (int qi) = Inr qid
           \<and> py_get (cos_scores_top_k_idx r) (int qi) = Inr ix
           \<and> py_get cids (ix + batch_index r * cs) = Inr cid
           \<and> (cid \<noteq> qid \<longrightarrow> (\<exists>m. map_of res qid = Some m \<and> cid \<in> fst ` set m))"
proof -
  have "qi \<in> set [0..<n]" using assms(2) by simp
  from merge_queries_candidate[OF assms(1)[unfolded format_results_def] this assms(3,4)]
  show ?thesis using rkeys_D by blast
qed

subsection \<open>batches\<close>

lemma batches_Nil [simp]: "batches n [] = []"
  by (simp add: batches.simps)

lemma batches_0 [simp]: "batches 0 xs = []"
  by (simp add: batches.simps)

lemma batches_Cons: "0 < n \<Longrightarrow> xs \<noteq> [] \<Longrightarrow> batches n xs = take n xs # batches n (drop n xs)"
  by (subst batches.simps) simp

lemma batches_nth:
  "0 < n \<Longrightarrow> b < length (batches n xs) \<Longrightarrow> i < length (batches n xs ! b)
     \<Longrightarrow> b * n + i < length xs \<and> batches n xs ! b ! i = xs ! (b * n + i)"
proof (induction n xs arbitrary: b rule: batches.induct)
  case (1 n xs)
  show ?case
  proof (cases "xs = []")
    case True then show ?thesis using "1.prems" by simp
  next
    case False
    have eq: "batches n xs = take n xs # batches n (drop n xs)"
      using batches_Cons[OF "1.prems"(1) False] .
    show ?thesis
    proof (cases b)
      case 0
      then show ?thesis using "1.prems" eq by simp
    next
      case (Suc b')
      have b': "b' < length (batches n (drop n xs))" using "1.prems"(2) eq Suc by simp
      have i': "i < length (batches n (drop n xs) ! b')" using "1.prems"(3) eq Suc by simp
      have nz: "\<not> (n = 0 \<or> xs = [])" using "1.prems"(1) False by simp
      from "1.IH"[OF nz "1.prems"(1) b' i']
      have ih: "b' * n + i < length (drop n xs)" "batches n (drop n xs) ! b' ! i = drop n xs ! (b' * n + i)"
        by auto
      have le: "n \<le> length xs" using ih(1) by simp
      have "b * n + i < length xs" using ih(1) Suc by simp
      moreover have "batches n xs ! b ! i = xs ! (b * n + i)"
        using ih(2) eq Suc le by (simp add: add.assoc add.commute add.left_commute)
      ultimately show ?thesis by simp
    qed
  qed
qed

lemma batches_length_le: "c \<in> set (batches n xs) \<Longrightarrow> length c \<le> n \<and> c \<noteq> []"
proof (induction n xs rule: batches.induct)
  case (1 n xs)
  show ?case
  proof (cases "n = 0 \<or> xs = []")
    case True then show ?thesis using "1.prems" by auto
  next
    case False
    then have eq: "batches n xs = take n xs # batches n (drop n xs)" by (simp add: batches_Cons)
    from "1.prems" eq have "c = take n xs \<or> c \<in> set (batches n (drop n xs))" by simp
    then show ?thesis using "1.IH"[OF False] False by auto
  qed
qed

lemma concat_batches: "0 < n \<Longrightarrow> concat (batches n xs) = xs"
proof (induction n xs rule: batches.induct)
  case (1 n xs)
  show ?case
  proof (cases "xs = []")
    case True then show ?thesis by simp
  next
    case False
    then show ?thesis using "1.IH" "1.prems" by (simp add: batches_Cons)
  qed
qed

lemma map_length_batches:
  "length xs = length ys \<Longrightarrow> map length (batches n xs) = map length (batches n ys)"
proof (induction n xs arbitrary: ys rule: batches.induct)
  case (1 n xs)
  show ?case
  proof (cases "n = 0 \<or> xs = []")
    case True then show ?thesis using "1.prems" by auto
  next
    case False
    then have "ys \<noteq> []" using "1.prems" by auto
    then show ?thesis using False "1.IH"[OF False, of "drop n ys"] "1.prems"
      by (simp add: batches_Cons)
  qed
qed

section \<open>The worker: what a chunk yields\<close>

lemma neg_key_le: "neg_key a \<le> neg_key b \<longleftrightarrow> score_le b a"
  by (cases a; cases b) (simp_all add: neg_key_def score_le_def)

lemma topk_desc_selects: "topk_selects topk_desc"
  unfolding topk_selects_def
proof (intro allI impI)
  fix r :: "score list" and k assume k: "k \<le> length r"
  let ?key = "\<lambda>i. neg_key (r ! i)"
  let ?L = "sort_key ?key [0..<length r]"
  have len: "length ?L = length r" by simp
  have dis: "distinct ?L" by simp
  have st: "set ?L = {0..<length r}" by simp
  have srt: "sorted (map ?key ?L)" by simp
  have split: "?L = take k ?L @ drop k ?L" by simp
  have td: "topk_desc r k = take k ?L" by (simp add: topk_desc_def)
  have 1: "length (topk_desc r k) = k" using k len by (simp add: td)
  have 2: "distinct (topk_desc r k)" using dis by (simp add: td)
  have 3: "i < length r \<and> (\<forall>j < length r. j \<notin> set (topk_desc r k) \<longrightarrow> score_le (r ! j) (r ! i))"
    if i: "i \<in> set (topk_desc r k)" for i
  proof
    have "i \<in> set ?L" using i td in_set_takeD by metis
    then show "i < length r" using st by simp
    show "\<forall>j < length r. j \<notin> set (topk_desc r k) \<longrightarrow> score_le (r ! j) (r ! i)"
    proof (intro allI impI)
      fix j assume j: "j < length r" "j \<notin> set (topk_desc r k)"
      have "j \<in> set ?L" using j st by simp
      then have "j \<in> set (take k ?L) \<union> set (drop k ?L)" using split by (metis set_append)
      then have jd: "j \<in> set (drop k ?L)" using j(2) td by simp
      have "sorted (map ?key (take k ?L) @ map ?key (drop k ?L))"
        using srt by (metis split map_append)
      then have "\<forall>x \<in> set (map ?key (take k ?L)). \<forall>y \<in> set (map ?key (drop k ?L)). x \<le> y"
        by (simp add: sorted_append)
      then have "?key i \<le> ?key j" using i td jd by auto
      then show "score_le (r ! j) (r ! i)" by (simp add: neg_key_le)
    qed
  qed
  show "length (topk_desc r k) = k \<and> distinct (topk_desc r k) \<and>
        (\<forall>i \<in> set (topk_desc r k). i < length r \<and>
           (\<forall>j < length r. j \<notin> set (topk_desc r k) \<longrightarrow> score_le (r ! j) (r ! i)))"
    using 1 2 3 by blast
qed

lemma shaped_toy: "shaped toy"
  by (auto simp: shaped_def toy_def toy_cos_def toy_dot_def)

lemma score_functions_Some:
  "score_functions ext name = Some f \<Longrightarrow> f \<in> {cos_sim ext, dot_score ext}"
  by (auto simp: score_functions_def split: if_splits)

lemma score_functions_None: "score_functions ext name = None \<longleftrightarrow> name \<notin> {''cos_sim'', ''dot''}"
  by (auto simp: score_functions_def)

text \<open>The examples a well-configured worker adds for one chunk, written out.\<close>

lemma process_batch_explicit:
  assumes sh: "shaped ext"
    and sf: "score_function self = Some name" "score_functions ext name = Some f"
    and qe: "query_embeddings self = Some Q" "2 \<le> length Q"
    and tk: "top_k self = Some t" "-1 \<le> t"
  shows "process_batch ext self (b, chunk) =
     Inr (map (\<lambda>j. \<lparr> cos_scores_top_k_values =
                        map (\<lambda>(r, ix). r ! (ix ! j))
                          (zip (map (map replace_nan) (f Q (encode_corpus ext chunk)))
                               (map (\<lambda>r. topk ext r (nat (min (t + 1) (int (length chunk)))))
                                  (map (map replace_nan) (f Q (encode_corpus ext chunk))))),
                      cos_scores_top_k_idx =
                        map (\<lambda>ix. int (ix ! j))
                          (map (\<lambda>r. topk ext r (nat (min (t + 1) (int (length chunk)))))
                                  (map (map replace_nan) (f Q (encode_corpus ext chunk)))),
                      batch_index = int b \<rparr>)
              [0..<nat (min (t + 1) (int (length chunk)))])"
proof -
  let ?E = "encode_corpus ext chunk"
  let ?S = "map (map replace_nan) (f Q ?E)"
  have fin: "f \<in> {cos_sim ext, dot_score ext}" using sf(2) by (rule score_functions_Some)
  have lE: "length ?E = length chunk" using sh by (simp add: shaped_def)
  have shp: "length (f Q ?E) = length Q" "\<forall>r \<in> set (f Q ?E). length r = length ?E"
    using sh fin unfolding shaped_def by blast+
  have lS: "length ?S = length Q" using shp by simp
  have "f Q ?E ! 1 \<in> set (f Q ?E)" using shp(1) qe(2) by (intro nth_mem) simp
  then have l1: "length (?S ! 1) = length chunk" using shp lE qe(2) by (simp)
  have k0: "\<not> min (t + 1) (int (length chunk)) < 0" using tk(2) by simp
  show ?thesis
    unfolding process_batch_def
    using sf qe tk lS l1 k0 by (simp add: Let_def)
qed

lemma process_batch_selects:
  assumes sh: "shaped ext" and ts: "topk_selects (topk ext)"
    and sf: "score_function self = Some name" "score_functions ext name = Some f"
    and qe: "query_embeddings self = Some Q" "2 \<le> length Q"
    and tk: "top_k self = Some t" "-1 \<le> t"
  shows "\<exists>rows. process_batch ext self (b, chunk) = Inr rows
     \<and> length rows = nat (min (t + 1) (int (length chunk)))
     \<and> (\<forall>r \<in> set rows. batch_index r = int b
           \<and> length (cos_scores_top_k_values r) = length Q
           \<and> length (cos_scores_top_k_idx r) = length Q)
     \<and> (\<forall>qi < length Q.
           distinct (map (\<lambda>r. cos_scores_top_k_idx r ! qi) rows)
         \<and> (\<forall>r \<in> set rows.
               0 \<le> cos_scores_top_k_idx r ! qi
             \<and> cos_scores_top_k_idx r ! qi < int (length chunk)
             \<and> cos_scores_top_k_values r ! qi
                 = replace_nan (f Q (encode_corpus ext chunk) ! qi ! nat (cos_scores_top_k_idx r ! qi)))
         \<and> (\<forall>c < length chunk.
               int c \<notin> (\<lambda>r. cos_scores_top_k_idx r ! qi) ` set rows \<longrightarrow>
               (\<forall>r \<in> set rows.
                  score_le (replace_nan (f Q (encode_corpus ext chunk) ! qi ! c))
                           (cos_scores_top_k_values r ! qi))))"
proof -
  let ?E = "encode_corpus ext chunk"
  let ?S = "map (map replace_nan) (f Q ?E)"
  let ?K = "nat (min (t + 1) (int (length chunk)))"
  let ?sel = "map (\<lambda>r. topk ext r ?K) ?S"
  let ?g = "\<lambda>j. \<lparr> cos_scores_top_k_values = map (\<lambda>(r, ix). r ! (ix ! j)) (zip ?S ?sel),
                  cos_scores_top_k_idx = map (\<lambda>ix. int (ix ! j)) ?sel,
                  batch_index = int b \<rparr>"
  let ?rows = "map ?g [0..<?K]"
  have pb: "process_batch ext self (b, chunk) = Inr ?rows"
    by (rule process_batch_explicit[OF sh sf qe tk])
  have fin: "f \<in> {cos_sim ext, dot_score ext}" using sf(2) by (rule score_functions_Some)
  have lE: "length ?E = length chunk" using sh by (simp add: shaped_def)
  have shp: "length (f Q ?E) = length Q" "\<forall>r \<in> set (f Q ?E). length r = length ?E"
    using sh fin unfolding shaped_def by blast+
  have lS: "length ?S = length Q" using shp by simp
  have lrow: "length (?S ! qi) = length chunk" if "qi < length Q" for qi
  proof -
    have "f Q ?E ! qi \<in> set (f Q ?E)" using shp(1) that by simp
    then show ?thesis using shp(2) lE that shp(1) by simp
  qed
  have Sval: "?S ! qi ! c = replace_nan (f Q ?E ! qi ! c)" if "qi < length Q" "c < length chunk" for qi c
  proof -
    have "f Q ?E ! qi \<in> set (f Q ?E)" using shp(1) that by simp
    then have "length (f Q ?E ! qi) = length chunk" using shp(2) lE by simp
    then show ?thesis using that shp(1) by simp
  qed
  have Kle: "?K \<le> length chunk" by simp
  have A: "length ?rows = ?K" by simp
  have B: "\<forall>r \<in> set ?rows. batch_index r = int b
           \<and> length (cos_scores_top_k_values r) = length Q
           \<and> length (cos_scores_top_k_idx r) = length Q"
    using lS by auto
  have C: "distinct (map (\<lambda>r. cos_scores_top_k_idx r ! qi) ?rows)
         \<and> (\<forall>r \<in> set ?rows.
               0 \<le> cos_scores_top_k_idx r ! qi
             \<and> cos_scores_top_k_idx r ! qi < int (length chunk)
             \<and> cos_scores_top_k_values r ! qi
                 = replace_nan (f Q ?E ! qi ! nat (cos_scores_top_k_idx r ! qi)))
         \<and> (\<forall>c < length chunk.
               int c \<notin> (\<lambda>r. cos_scores_top_k_idx r ! qi) ` set ?rows \<longrightarrow>
               (\<forall>r \<in> set ?rows.
                  score_le (replace_nan (f Q ?E ! qi ! c)) (cos_scores_top_k_values r ! qi)))"
    if qi: "qi < length Q" for qi
  proof -
    let ?row = "?S ! qi"
    let ?s = "topk ext ?row ?K"
    have Kr: "?K \<le> length ?row" using lrow[OF qi] Kle by simp
    from ts[unfolded topk_selects_def, rule_format, OF Kr]
    have s_len: "length ?s = ?K" and s_dis: "distinct ?s"
      and s_sel: "\<forall>i \<in> set ?s. i < length ?row \<and> (\<forall>j < length ?row. j \<notin> set ?s \<longrightarrow> score_le (?row ! j) (?row ! i))"
      by blast+
    have idx: "cos_scores_top_k_idx (?g j) ! qi = int (?s ! j)" for j
      using qi lS by simp
    have val: "cos_scores_top_k_values (?g j) ! qi = ?row ! (?s ! j)" for j
      using qi lS by simp
    have maps: "map (\<lambda>r. cos_scores_top_k_idx r ! qi) ?rows = map int ?s"
    proof -
      have "map (\<lambda>r. cos_scores_top_k_idx r ! qi) ?rows = map (\<lambda>j. int (?s ! j)) [0..<?K]"
        using idx by (simp add: comp_def)
      also have "\<dots> = map int (map (\<lambda>j. ?s ! j) [0..<length ?s])"
        by (simp add: s_len comp_def)
      also have "\<dots> = map int ?s" by (simp add: map_nth)
      finally show ?thesis .
    qed
    have img: "(\<lambda>r. cos_scores_top_k_idx r ! qi) ` set ?rows = int ` set ?s"
      using arg_cong[OF maps, of set] by (simp only: set_map)
    have 1: "distinct (map (\<lambda>r. cos_scores_top_k_idx r ! qi) ?rows)"
      unfolding maps using s_dis by (simp add: distinct_map)
    have inrow: "\<exists>j < ?K. r = ?g j" if "r \<in> set ?rows" for r
      using that by auto
    have 2: "0 \<le> cos_scores_top_k_idx r ! qi
             \<and> cos_scores_top_k_idx r ! qi < int (length chunk)
             \<and> cos_scores_top_k_values r ! qi
                 = replace_nan (f Q ?E ! qi ! nat (cos_scores_top_k_idx r ! qi))"
      if r: "r \<in> set ?rows" for r
    proof -
      from inrow[OF r] obtain j where j: "j < ?K" "r = ?g j" by blast
      have mem: "?s ! j \<in> set ?s" using j(1) s_len by simp
      then have lt: "?s ! j < length chunk" using s_sel lrow[OF qi] by auto
      have i: "cos_scores_top_k_idx r ! qi = int (?s ! j)" unfolding j(2) by (rule idx)
      have v: "cos_scores_top_k_values r ! qi = ?row ! (?s ! j)" unfolding j(2) by (rule val)
      show ?thesis using lt Sval[OF qi lt] by (simp add: i v)
    qed
    have 3: "\<forall>r \<in> set ?rows. score_le (replace_nan (f Q ?E ! qi ! c)) (cos_scores_top_k_values r ! qi)"
      if c: "c < length chunk" "int c \<notin> (\<lambda>r. cos_scores_top_k_idx r ! qi) ` set ?rows" for c
    proof
      fix r assume r: "r \<in> set ?rows"
      from inrow[OF r] obtain j where j: "j < ?K" "r = ?g j" by blast
      have mem: "?s ! j \<in> set ?s" using j(1) s_len by simp
      have cn: "c \<notin> set ?s" using c(2) img by auto
      have "score_le (?row ! c) (?row ! (?s ! j))"
        using s_sel mem cn c(1) lrow[OF qi] by auto
      moreover have v: "cos_scores_top_k_values r ! qi = ?row ! (?s ! j)" unfolding j(2) by (rule val)
      ultimately show "score_le (replace_nan (f Q ?E ! qi ! c)) (cos_scores_top_k_values r ! qi)"
        using Sval[OF qi c(1)] by simp
    qed
    show ?thesis using 1 2 3 by blast
  qed
  show ?thesis
    apply (rule exI[of _ ?rows])
    using pb A B C by blast
qed

section \<open>The coordinator: the shape of a run\<close>

subsection \<open>errors of the merge\<close>

lemma py_get_error: "py_get xs i = Inl e \<Longrightarrow> e = IndexError"
  by (auto simp: py_get_def split: if_splits)

lemma set_result_error: "set_result res q c sc = Inl e \<Longrightarrow> e = KeyError"
  by (auto simp: set_result_def split: option.splits)

lemma merge_rows_error:
  "snd (merge_rows q qi cids cs rows res) = Some e \<Longrightarrow> e = IndexError \<or> e = KeyError"
proof (induction rows arbitrary: res)
  case Nil then show ?case by simp
next
  case (Cons r rs)
  show ?case
  proof (cases "batch_index r = -1")
    case True then show ?thesis using Cons by simp
  next
    case False
    then show ?thesis using Cons.prems Cons.IH
      by (auto simp: Let_def split: sum.splits if_splits dest: py_get_error set_result_error)
  qed
qed

lemma merge_queries_error:
  "snd (merge_queries qids cids cs rows qis res) = Some e \<Longrightarrow> e = IndexError \<or> e = KeyError"
proof (induction qis arbitrary: res)
  case Nil then show ?case by simp
next
  case (Cons qi qis)
  show ?case
  proof (cases "py_get qids (int qi)")
    case (Inl e') then show ?thesis using Cons.prems py_get_error by auto
  next
    case (Inr qid)
    obtain res' eo where mr: "merge_rows qid qi cids cs rows res = (res', eo)" by force
    show ?thesis
    proof (cases eo)
      case None then show ?thesis using Cons.prems Inr mr Cons.IH[of res'] by simp
    next
      case (Some e')
      then show ?thesis using Cons.prems Inr mr merge_rows_error[of qid qi cids cs rows res e] by simp
    qed
  qed
qed

lemma format_results_error:
  "snd (format_results qids cids n cs rows) = Some e \<Longrightarrow> e = IndexError \<or> e = KeyError"
  unfolding format_results_def by (rule merge_queries_error)

subsection \<open>search\<close>

lemma run_job_chunk_size:
  "corpus_chunk_size (fst (snd (run_job ext self cs corpus queries t sf))) = corpus_chunk_size self"
  by (simp add: run_job_def Let_def set_job_def)

lemma search_job_chunk_size:
  "corpus_chunk_size (fst (snd (search_job ext self cs corpus queries t sf))) = corpus_chunk_size self"
  by (simp add: search_job_def run_job_chunk_size split: sum.splits)

lemma run_job_unfold:
  "fst (run_job ext self cs corpus queries t sf) =
     (if cs \<le> 0 then Inl (BatchSizeError cs)
      else if encode_query_batches ext cs queries = [] then Inl CatEmptyError
      else if length (target_devices self) = 0 then Inl PoolBlocked
      else (case snd (format_results (map q_id queries) (map c_id corpus)
                        (length (concat (encode_query_batches ext cs queries))) cs
                        (read_all ext (run_pool ext
                           (set_job self (concat (encode_query_batches ext cs queries)) t sf)
                           (dispatch cs corpus)))) of
              None \<Rightarrow> Inr (fst (format_results (map q_id queries) (map c_id corpus)
                        (length (concat (encode_query_batches ext cs queries))) cs
                        (read_all ext (run_pool ext
                           (set_job self (concat (encode_query_batches ext cs queries)) t sf)
                           (dispatch cs corpus)))))
            | Some e \<Rightarrow> Inl e))"
  unfolding run_job_def by (simp add: Let_def)

lemma run_job_not_score_function_error:
  "fst (run_job ext self cs corpus queries t sf) \<noteq> Inl (ScoreFunctionError x)"
proof
  assume "fst (run_job ext self cs corpus queries t sf) = Inl (ScoreFunctionError x)"
  from this[unfolded run_job_unfold]
  obtain qids cids n rows where "snd (format_results qids cids n cs rows) = Some (ScoreFunctionError x)"
    by (auto split: if_splits option.splits)
  from format_results_error[OF this] show False by simp
qed

lemma run_job_Inr:
  assumes "fst (run_job ext self cs corpus queries t sf) = Inr res"
  shows "0 < cs \<and> encode_query_batches ext cs queries \<noteq> [] \<and> target_devices self \<noteq> [] \<and>
     format_results (map q_id queries) (map c_id corpus)
       (length (concat (encode_query_batches ext cs queries))) cs
       (read_all ext (run_pool ext
          (set_job self (concat (encode_query_batches ext cs queries)) t sf)
          (dispatch cs corpus))) = (res, None)"
proof -
  let ?merged = "format_results (map q_id queries) (map c_id corpus)
       (length (concat (encode_query_batches ext cs queries))) cs
       (read_all ext (run_pool ext
          (set_job self (concat (encode_query_batches ext cs queries)) t sf)
          (dispatch cs corpus)))"
  from assms[unfolded run_job_unfold]
  have cs: "0 < cs" and ne: "encode_query_batches ext cs queries \<noteq> []"
    and dv: "target_devices self \<noteq> []" and m: "snd ?merged = None" "fst ?merged = res"
    by (auto split: if_splits option.splits)
  have "?merged = (res, None)" using m by (metis prod.collapse)
  then show ?thesis using cs ne dv by blast
qed

lemma doc_len_error: "doc_len x = Inl e \<Longrightarrow> e = TypeError"
  by (auto simp: doc_len_def split: title.splits)

lemma doc_lens_error: "doc_lens xs = Inl e \<Longrightarrow> e = TypeError"
  by (induction xs) (auto split: sum.splits dest: doc_len_error)

lemma doc_lens_length: "doc_lens xs = Inr ns \<Longrightarrow> length ns = length xs"
  by (induction xs arbitrary: ns) (auto split: sum.splits)

lemma reorder_error: "reorder self corpus = Inl e \<Longrightarrow> e = TypeError"
  by (auto simp: reorder_def sort_by_len_def split: if_splits sum.splits dest: doc_lens_error)

lemma length_reorder: "reorder self corpus = Inr corpus1 \<Longrightarrow> length corpus1 = length corpus"
  by (auto simp: reorder_def sort_by_len_def split: if_splits sum.splits dest: doc_lens_length)

lemma reorder_chunk_size [simp]:
  "reorder (self\<lparr>corpus_chunk_size := x\<rparr>) corpus = reorder self corpus"
  by (simp add: reorder_def)

lemma search_job_not_score_function_error:
  "fst (search_job ext self cs corpus queries t sf) \<noteq> Inl (ScoreFunctionError x)"
  using run_job_not_score_function_error[of ext self cs _ queries t sf x] reorder_error[of self corpus]
  by (auto simp: search_job_def split: sum.splits)

lemma search_job_Inr:
  assumes "fst (search_job ext self cs corpus queries t sf) = Inr res"
  shows "\<exists>corpus1. reorder self corpus = Inr corpus1 \<and>
     0 < cs \<and> encode_query_batches ext cs queries \<noteq> [] \<and> target_devices self \<noteq> [] \<and>
     format_results (map q_id queries) (map c_id corpus1)
       (length (concat (encode_query_batches ext cs queries))) cs
       (read_all ext (run_pool ext
          (set_job self (concat (encode_query_batches ext cs queries)) t sf)
          (dispatch cs corpus1))) = (res, None)"
proof (cases "reorder self corpus")
  case (Inl e)
  then show ?thesis using assms by (simp add: search_job_def)
next
  case (Inr corpus1)
  then have "fst (run_job ext self cs corpus1 queries t sf) = Inr res"
    using assms by (simp add: search_job_def)
  from run_job_Inr[OF this] show ?thesis using Inr by blast
qed

lemma top_k_set_job: "top_k (set_job self Q t sf) = Some t"
  by (simp add: set_job_def)

lemma search_cases:
  "fst (search ext self corpus queries t sf) = Inr res \<Longrightarrow>
   \<exists>c. chunk_size_or_default self (length corpus) = Inr c \<and>
       fst (search_job ext (self\<lparr>corpus_chunk_size := Some (min c (int (length corpus) - 1))\<rparr>)
              (min c (int (length corpus) - 1)) corpus queries t sf) = Inr res"
  by (auto simp: search_def Let_def split: option.splits sum.splits)

lemma search_chunk_size:
  assumes "score_functions ext sf \<noteq> None" "chunk_size_or_default self (length corpus) = Inr c"
  shows "search ext self corpus queries t sf =
           search_job ext (self\<lparr>corpus_chunk_size := Some (min c (int (length corpus) - 1))\<rparr>)
              (min c (int (length corpus) - 1)) corpus queries t sf"
    and "corpus_chunk_size (fst (snd (search ext self corpus queries t sf)))
           = Some (min c (int (length corpus) - 1))"
proof -
  show 1: "search ext self corpus queries t sf =
           search_job ext (self\<lparr>corpus_chunk_size := Some (min c (int (length corpus) - 1))\<rparr>)
              (min c (int (length corpus) - 1)) corpus queries t sf"
    using assms by (auto simp: search_def Let_def split: option.splits)
  show "corpus_chunk_size (fst (snd (search ext self corpus queries t sf)))
           = Some (min c (int (length corpus) - 1))"
    unfolding 1 by (simp add: search_job_chunk_size)
qed

section \<open>Sentinels, row counts, chunk positions\<close>

lemma process_batch_batch_index:
  "process_batch ext self item = Inr rows \<Longrightarrow> r \<in> set rows \<Longrightarrow> batch_index r = int (fst item)"
  by (auto simp: process_batch_def Let_def split: option.splits if_splits)

lemma worker_loop_batch_index:
  "r \<in> set (fst (worker_loop ext self items)) \<Longrightarrow> 0 \<le> batch_index r"
proof (induction items)
  case Nil then show ?case by simp
next
  case (Cons item items)
  show ?case
  proof (cases "process_batch ext self item")
    case (Inl e) then show ?thesis using Cons.prems by simp
  next
    case (Inr rows)
    obtain rest eo where w: "worker_loop ext self items = (rest, eo)" by force
    from Cons.prems Inr w have "r \<in> set rows \<or> r \<in> set rest" by auto
    then show ?thesis
    proof
      assume "r \<in> set rows"
      from process_batch_batch_index[OF Inr this] show ?thesis by simp
    next
      assume "r \<in> set rest" then show ?thesis using Cons.IH w by simp
    qed
  qed
qed

lemma worker_sentinel_first:
  "\<exists>rest. fst (encode_multi_process_worker ext self items) = warmup # rest
          \<and> (\<forall>r \<in> set rest. batch_index r \<noteq> -1)"
proof -
  obtain rows eo where w: "worker_loop ext self items = (rows, eo)" by force
  have "\<forall>r \<in> set rows. batch_index r \<noteq> -1"
    using worker_loop_batch_index[of _ ext self items] w by fastforce
  then show ?thesis by (simp add: encode_multi_process_worker_def w)
qed

lemma toy_pool_run:
  "run_pool toy toy_worker_state (enumerate_from0 (batches 2 toy_corpus))
     = [([warmup, toy_row0], None), ([warmup, toy_row1], None)]"
  by code_simp

lemma py_get_batches:
  assumes "0 < cs" "b < length (batches (nat cs) xs)" "i < length (batches (nat cs) xs ! b)"
  shows "py_get (map f xs) (int i + int b * cs) = Inr (f (batches (nat cs) xs ! b ! i))"
proof -
  have n: "0 < nat cs" using assms(1) by simp
  from batches_nth[OF n assms(2,3)]
  have lt: "b * nat cs + i < length xs" and eq: "batches (nat cs) xs ! b ! i = xs ! (b * nat cs + i)"
    by auto
  have "int (b * nat cs + i) = int i + int b * cs" using assms(1) by simp
  moreover have "py_get (map f xs) (int (b * nat cs + i)) = Inr (f (xs ! (b * nat cs + i)))"
    by (rule iffD2[OF py_get_nat]) (simp add: lt)
  ultimately show ?thesis using eq by (simp only:)
qed

lemma toy_merge7:
  "format_results [''q0''] (map c_id toy_corpus7) 1 3 [warmup, toy_row5] = ([(''q0'', [(''d5'', Fin 6)])], None)"
  by code_simp

lemma toy_batches7: "map (map c_id) (batches 3 toy_corpus7) = [[''d0'', ''d1'', ''d2''], [''d3'', ''d4'', ''d5''], [''d6'']]"
  by code_simp

lemma process_batch_length:
  assumes sh: "shaped ext" and pb: "process_batch ext self item = Inr rows"
    and tk: "top_k self = Some t"
  shows "length rows \<le> nat (min (t + 1) (int (length (snd item))))"
proof -
  from pb obtain name f Q where
    sf: "score_function self = Some name" "score_functions ext name = Some f"
    and qe: "query_embeddings self = Some Q"
    by (auto simp: process_batch_def Let_def split: option.splits)
  let ?E = "encode_corpus ext (snd item)"
  let ?S = "map (map replace_nan) (f Q ?E)"
  have two: "\<not> length ?S < 2" and
    rows: "length rows = nat (min (t + 1) (int (length (?S ! 1))))"
    using pb sf qe tk by (auto simp: process_batch_def Let_def split: if_splits)
  have fin: "f \<in> {cos_sim ext, dot_score ext}" using sf(2) by (rule score_functions_Some)
  have lE: "length ?E = length (snd item)" using sh by (simp add: shaped_def)
  have shp: "\<forall>r \<in> set (f Q ?E). length r = length ?E"
    using sh fin unfolding shaped_def by blast
  have "1 < length (f Q ?E)" using two by simp
  then have "f Q ?E ! 1 \<in> set (f Q ?E)" by (rule nth_mem)
  then have "length (?S ! 1) = length (snd item)" using shp lE two by simp
  then show ?thesis using rows by simp
qed

lemma worker_loop_length:
  assumes "shaped ext" and "top_k self = Some t"
  shows "length (fst (worker_loop ext self items))
           \<le> (\<Sum>item\<leftarrow>items. nat (min (t + 1) (int (length (snd item)))))"
proof (induction items)
  case Nil then show ?case by simp
next
  case (Cons item items)
  show ?case
  proof (cases "process_batch ext self item")
    case (Inl e) then show ?thesis by simp
  next
    case (Inr rows)
    obtain rest eo where w: "worker_loop ext self items = (rest, eo)" by force
    show ?thesis using Inr w Cons.IH process_batch_length[OF assms(1) Inr assms(2)] by simp
  qed
qed

lemma worker_real_rows_length:
  assumes "shaped ext" and "top_k self = Some t"
  shows "length (real_rows (fst (encode_multi_process_worker ext self items)))
           \<le> (\<Sum>item\<leftarrow>items. nat (min (t + 1) (int (length (snd item)))))"
proof -
  obtain rows eo where w: "worker_loop ext self items = (rows, eo)" by force
  have "length (real_rows (fst (encode_multi_process_worker ext self items))) = length (real_rows rows)"
    by (simp add: encode_multi_process_worker_def w warmup_def)
  also have "\<dots> \<le> length rows" by simp
  also have "\<dots> \<le> (\<Sum>item\<leftarrow>items. nat (min (t + 1) (int (length (snd item)))))"
    using worker_loop_length[OF assms, of items] w by simp
  finally show ?thesis .
qed

lemma sum_list_one_hit:
  fixes a :: nat
  assumes "q < W"
  shows "(\<Sum>p\<leftarrow>[0..<W]. if q = p then a else 0) = a"
proof -
  have "(\<Sum>p\<leftarrow>[0..<W]. if q = p then a else 0) = (\<Sum>p\<in>set [0..<W]. if q = p then a else 0)"
    by (rule sum_list_distinct_conv_sum_set) simp
  also have "\<dots> = a" using assms by simp
  finally show ?thesis .
qed

lemma sum_list_partition:
  fixes g :: "'a \<Rightarrow> nat"
  assumes "0 < W"
  shows "(\<Sum>p\<leftarrow>[0..<W]. \<Sum>x\<leftarrow>filter (\<lambda>x. h x mod W = p) xs. g x) = (\<Sum>x\<leftarrow>xs. g x)"
proof (induction xs)
  case Nil then show ?case by simp
next
  case (Cons x xs)
  have "(\<Sum>p\<leftarrow>[0..<W]. \<Sum>y\<leftarrow>filter (\<lambda>y. h y mod W = p) (x # xs). g y)
      = (\<Sum>p\<leftarrow>[0..<W]. (if h x mod W = p then g x else 0)
                          + (\<Sum>y\<leftarrow>filter (\<lambda>y. h y mod W = p) xs. g y))"
    by (intro arg_cong[where f = sum_list] map_cong) auto
  also have "\<dots> = (\<Sum>p\<leftarrow>[0..<W]. if h x mod W = p then g x else 0)
                 + (\<Sum>p\<leftarrow>[0..<W]. \<Sum>y\<leftarrow>filter (\<lambda>y. h y mod W = p) xs. g y)"
    by (rule sum_list_addf)
  also have "\<dots> = g x + (\<Sum>y\<leftarrow>xs. g y)"
    using sum_list_one_hit[of "h x mod W" W "g x"] assms Cons.IH by simp
  finally show ?case by simp
qed

lemma real_rows_concat: "real_rows (concat xss) = concat (map real_rows xss)"
  by (induction xss) simp_all

lemma batch_index_stored [simp]: "batch_index (stored ext r) = batch_index r"
  by (simp add: stored_def)

lemma idx_stored [simp]: "cos_scores_top_k_idx (stored ext r) = cos_scores_top_k_idx r"
  by (simp add: stored_def)

lemma length_values_stored [simp]:
  "length (cos_scores_top_k_values (stored ext r)) = length (cos_scores_top_k_values r)"
  by (simp add: stored_def)

lemma real_rows_read_all:
  "length (real_rows (read_all ext outs)) = length (real_rows (concat (map fst outs)))"
proof -
  have "real_rows (map (stored ext) rows) = map (stored ext) (real_rows rows)" for rows
    by (simp add: filter_map comp_def)
  then show ?thesis by (simp add: read_all_def)
qed

lemma run_pool_real_rows:
  assumes sh: "shaped ext" and tk: "top_k self = Some t"
  shows "length (real_rows (read_all ext (run_pool ext self items)))
           \<le> (\<Sum>item\<leftarrow>items. nat (min (t + 1) (int (length (snd item)))))"
proof (cases "length (target_devices self) = 0")
  case True
  then show ?thesis by (simp add: run_pool_def read_all_def)
next
  case False
  let ?W = "length (target_devices self)"
  let ?mine = "\<lambda>p. filter (\<lambda>item. sched ext (fst item) mod ?W = p) items"
  let ?g = "\<lambda>item. nat (min (t + 1) (int (length (snd item))))"
  have "length (real_rows (read_all ext (run_pool ext self items)))
      = length (real_rows (concat (map fst (run_pool ext self items))))"
    by (rule real_rows_read_all)
  also have "\<dots>
      = (\<Sum>p\<leftarrow>[0..<?W]. length (real_rows (fst (encode_multi_process_worker ext self (?mine p)))))"
    by (simp add: run_pool_def Let_def real_rows_concat length_concat comp_def)
  also have "\<dots> \<le> (\<Sum>p\<leftarrow>[0..<?W]. \<Sum>item\<leftarrow>?mine p. ?g item)"
    by (rule sum_list_mono) (rule worker_real_rows_length[OF sh tk])
  also have "\<dots> = (\<Sum>item\<leftarrow>items. ?g item)"
    using False sum_list_partition[where W = ?W and h = "\<lambda>item. sched ext (fst item)" and xs = items and g = ?g] by simp
  finally show ?thesis .
qed

lemma map_snd_enumerate_from0: "map snd (enumerate_from0 xs) = xs"
  by (simp add: enumerate_from0_def)

lemma sum_enumerate_from0:
  "(\<Sum>item\<leftarrow>enumerate_from0 xs. g (snd item)) = (\<Sum>x\<leftarrow>xs. g x)"
proof -
  have "map (\<lambda>item. g (snd item)) (enumerate_from0 xs) = map g (map snd (enumerate_from0 xs))"
    by simp
  then show ?thesis by (simp only: map_snd_enumerate_from0)
qed

lemma sum_batches_length:
  assumes "length xs = length ys"
  shows "(\<Sum>c\<leftarrow>batches n xs. g (length c)) = (\<Sum>c\<leftarrow>batches n ys. g (length c))"
proof -
  have "map (\<lambda>c. g (length c)) (batches n xs) = map g (map length (batches n xs))" by simp
  also have "\<dots> = map g (map length (batches n ys))"
    by (simp only: map_length_batches[OF assms])
  also have "\<dots> = map (\<lambda>c. g (length c)) (batches n ys)" by simp
  finally show ?thesis by simp
qed

lemma search_Inr_known:
  "fst (search ext self corpus queries t sf) = Inr res \<Longrightarrow> score_functions ext sf \<noteq> None"
  by (auto simp: search_def split: option.splits)

lemma toy_run_chunk_size:
  "corpus_chunk_size (fst (snd (search toy (init toy 128 (Some 2) (Some [Cpu])) toy_corpus toy_queries 1 ''dot''))) = Some 2"
  by code_simp

lemma toy_topk: "topk_selects (topk toy)"
  using topk_desc_selects by (simp add: toy_def)

lemma toy_batch_top1:
  "process_batch toy (toy_worker_state\<lparr>top_k := Some 1\<rparr>) (0, take 3 toy_corpus) = Inr [toy_row0, toy_row0b]"
  by code_simp

lemma toy_batch_top0:
  "process_batch toy toy_worker_state (0, take 3 toy_corpus) = Inr [toy_row0]"
  by code_simp

lemma replace_nan_not_NaN: "replace_nan s \<noteq> NaN"
  by (cases s) (simp_all add: replace_nan_def)

lemma toy_cos_batch:
  "process_batch toy toy_cos_state (0, [toy_zero_doc, doc ''d0'' ''abcde'', doc ''d2'' ''abc''])
     = Inr [\<lparr> cos_scores_top_k_values = [Fin 1, Fin 1], cos_scores_top_k_idx = [1, 1], batch_index = 0 \<rparr>,
            \<lparr> cos_scores_top_k_values = [Fin 1, Fin 1], cos_scores_top_k_idx = [2, 2], batch_index = 0 \<rparr>,
            \<lparr> cos_scores_top_k_values = [Fin (-1), Fin (-1)], cos_scores_top_k_idx = [0, 0], batch_index = 0 \<rparr>]"
  by code_simp

lemma toy_cos_scores:
  "cos_sim toy [3, 2] (encode_corpus toy [toy_zero_doc, doc ''d0'' ''abcde'', doc ''d2'' ''abc''])
     = [[NaN, Fin 1, Fin 1], [NaN, Fin 1, Fin 1]]"
  by code_simp

lemma format_results_no_self:
  "map_of (fst (format_results query_ids corpus_ids n chunk_size rows)) q = Some m \<Longrightarrow> q \<notin> fst ` set m"
proof -
  assume a: "map_of (fst (format_results query_ids corpus_ids n chunk_size rows)) q = Some m"
  have "no_self (fst (format_results query_ids corpus_ids n chunk_size rows))"
    unfolding format_results_def by (rule no_self_merge_queries[OF no_self_empty_results])
  moreover have "(q, m) \<in> set (fst (format_results query_ids corpus_ids n chunk_size rows))"
    using a by (rule map_of_SomeD)
  ultimately show ?thesis by (auto simp: no_self_def)
qed

lemma toy_run:
  "fst (search toy (init toy 128 (Some 2) (Some [Cpu])) toy_corpus toy_queries 1 ''dot'') =
     Inr [(''q0'', [(''d0'', Fin 12), (''d2'', Fin 6), (''d3'', Fin 3)]),
          (''q1'', [(''d0'', Fin 8), (''q0'', Fin 6), (''d2'', Fin 4), (''d3'', Fin 2)])]"
  by code_simp

section \<open>A well-configured job completes\<close>

lemma set_result_keys:
  assumes "q \<in> fst ` set res"
  shows "\<exists>res'. set_result res q c sc = Inr res' \<and> fst ` set res' = fst ` set res"
proof -
  from assms obtain m where m: "map_of res q = Some m"
    by (metis map_of_eq_None_iff not_None_eq)
  then show ?thesis using assms by (auto simp: set_result_def dom_update)
qed

lemma merge_rows_ok:
  assumes "\<forall>r \<in> set rows. row_ok cids cs qi r" and "q \<in> fst ` set res"
  shows "snd (merge_rows q qi cids cs rows res) = None
       \<and> fst ` set (fst (merge_rows q qi cids cs rows res)) = fst ` set res"
  using assms
proof (induction rows arbitrary: res)
  case Nil then show ?case by simp
next
  case (Cons r rs)
  have rest: "\<forall>r \<in> set rs. row_ok cids cs qi r" using Cons.prems(1) by simp
  show ?case
  proof (cases "batch_index r = -1")
    case True
    then show ?thesis using Cons.IH[OF rest Cons.prems(2)] by simp
  next
    case False
    then obtain ix sc cid where
      g: "py_get (cos_scores_top_k_idx r) (int qi) = Inr ix"
         "py_get (cos_scores_top_k_values r) (int qi) = Inr sc"
         "py_get cids (ix + batch_index r * cs) = Inr cid"
      using Cons.prems(1) by (auto simp: row_ok_def)
    show ?thesis
    proof (cases "cid = q")
      case True
      then show ?thesis using False g Cons.IH[OF rest Cons.prems(2)] by (simp add: Let_def)
    next
      case neq: False
      from set_result_keys[OF Cons.prems(2), of cid sc] obtain res' where
        sr: "set_result res q cid sc = Inr res'" and k: "fst ` set res' = fst ` set res" by blast
      have "q \<in> fst ` set res'" using k Cons.prems(2) by simp
      from Cons.IH[OF rest this] show ?thesis using False g neq sr k by (simp add: Let_def)
    qed
  qed
qed

lemma merge_queries_ok:
  assumes "\<forall>qi \<in> set qis. qi < length qids \<and> (\<forall>r \<in> set rows. row_ok cids cs qi r)"
    and "set qids \<subseteq> fst ` set res"
  shows "snd (merge_queries qids cids cs rows qis res) = None"
  using assms
proof (induction qis arbitrary: res)
  case Nil then show ?case by simp
next
  case (Cons qi qis)
  have lt: "qi < length qids" and ok: "\<forall>r \<in> set rows. row_ok cids cs qi r"
    using Cons.prems(1) by auto
  have g: "py_get qids (int qi) = Inr (qids ! qi)" using lt by (simp add: py_get_nat)
  have mem: "qids ! qi \<in> fst ` set res" using lt Cons.prems(2) by auto
  obtain res' eo where mr: "merge_rows (qids ! qi) qi cids cs rows res = (res', eo)" by force
  from merge_rows_ok[OF ok mem] mr have eo: "eo = None" and k: "fst ` set res' = fst ` set res"
    by auto
  have "snd (merge_queries qids cids cs rows qis res') = None"
    using Cons.IH[of res'] Cons.prems k by simp
  then show ?case using g mr eo by simp
qed

lemma keys_fold_update:
  "fst ` set (fold (\<lambda>qid. AList.update qid []) qids acc) = set qids \<union> fst ` set acc"
  by (induction qids arbitrary: acc) (auto simp: dom_update)

lemma format_results_ok:
  assumes "n \<le> length qids" and "\<forall>qi < n. \<forall>r \<in> set rows. row_ok cids cs qi r"
  shows "snd (format_results qids cids n cs rows) = None"
proof -
  have 1: "\<forall>qi \<in> set [0..<n]. qi < length qids \<and> (\<forall>r \<in> set rows. row_ok cids cs qi r)"
    using assms by auto
  have 2: "set qids \<subseteq> fst ` set (empty_results qids)"
    by (simp add: empty_results_def keys_fold_update)
  show ?thesis unfolding format_results_def by (rule merge_queries_ok[OF 1 2])
qed

lemma process_batch_row_of:
  assumes "shaped ext" and "topk_selects (topk ext)"
    and "score_function self = Some name" and "score_functions ext name = Some f"
    and "query_embeddings self = Some Q" and "2 \<le> length Q"
    and "top_k self = Some t" and "-1 \<le> t"
  shows "\<exists>rows. process_batch ext self item = Inr rows \<and> (\<forall>r \<in> set rows. row_of (length Q) item r)"
proof -
  obtain b chunk where item: "item = (b, chunk)" by (cases item)
  from process_batch_selects[OF assms, of b chunk] obtain rows where
    pb: "process_batch ext self (b, chunk) = Inr rows" and
    a: "\<forall>r \<in> set rows. batch_index r = int b
           \<and> length (cos_scores_top_k_values r) = length Q
           \<and> length (cos_scores_top_k_idx r) = length Q" and
    b: "\<forall>qi < length Q. \<forall>r \<in> set rows.
               0 \<le> cos_scores_top_k_idx r ! qi
             \<and> cos_scores_top_k_idx r ! qi < int (length chunk)"
    by blast
  have "\<forall>r \<in> set rows. row_of (length Q) item r"
    using a b by (auto simp: row_of_def item)
  then show ?thesis using pb item by blast
qed

lemma worker_loop_ok:
  assumes "shaped ext" and "topk_selects (topk ext)"
    and "score_function self = Some name" and "score_functions ext name = Some f"
    and "query_embeddings self = Some Q" and "2 \<le> length Q"
    and "top_k self = Some t" and "-1 \<le> t"
  shows "snd (worker_loop ext self items) = None
       \<and> (\<forall>r \<in> set (fst (worker_loop ext self items)). \<exists>item \<in> set items. row_of (length Q) item r)"
proof (induction items)
  case Nil then show ?case by simp
next
  case (Cons item items)
  from process_batch_row_of[OF assms, of item] obtain rows where
    pb: "process_batch ext self item = Inr rows" and ro: "\<forall>r \<in> set rows. row_of (length Q) item r"
    by blast
  obtain rest eo where w: "worker_loop ext self items = (rest, eo)" by force
  show ?case using pb ro w Cons.IH by auto
qed

lemma run_pool_ok:
  assumes "shaped ext" and "topk_selects (topk ext)"
    and "score_function self = Some name" and "score_functions ext name = Some f"
    and "query_embeddings self = Some Q" and "2 \<le> length Q"
    and "top_k self = Some t" and "-1 \<le> t"
  shows "(\<forall>out \<in> set (run_pool ext self items). snd out = None)
       \<and> (\<forall>r \<in> set (concat (map fst (run_pool ext self items))).
             r = warmup \<or> (\<exists>item \<in> set items. row_of (length Q) item r))"
proof -
  have w: "snd (encode_multi_process_worker ext self its) = None
       \<and> (\<forall>r \<in> set (fst (encode_multi_process_worker ext self its)).
             r = warmup \<or> (\<exists>item \<in> set its. row_of (length Q) item r))" for its
  proof -
    obtain rows eo where wl: "worker_loop ext self its = (rows, eo)" by force
    show ?thesis using worker_loop_ok[OF assms, of its] wl
      by (auto simp: encode_multi_process_worker_def)
  qed
  show ?thesis
  proof (intro conjI ballI)
    fix out assume "out \<in> set (run_pool ext self items)"
    then show "snd out = None" using w by (auto simp: run_pool_def Let_def)
  next
    fix r assume "r \<in> set (concat (map fst (run_pool ext self items)))"
    then obtain p where
      "r \<in> set (fst (encode_multi_process_worker ext self
                (filter (\<lambda>item. sched ext (fst item) mod length (target_devices self) = p) items)))"
      by (auto simp: run_pool_def Let_def)
    then have "\<exists>its. set its \<subseteq> set items \<and> r \<in> set (fst (encode_multi_process_worker ext self its))"
      by (intro exI[of _ "filter (\<lambda>item. sched ext (fst item) mod length (target_devices self) = p) items"]) simp
    then obtain its where sub: "set its \<subseteq> set items"
      and r: "r \<in> set (fst (encode_multi_process_worker ext self its))" by blast
    from w[of its] r have "r = warmup \<or> (\<exists>item \<in> set its. row_of (length Q) item r)" by blast
    then show "r = warmup \<or> (\<exists>item \<in> set items. row_of (length Q) item r)" using sub by blast
  qed
qed

lemma py_get_map: "py_get xs i = Inr x \<Longrightarrow> py_get (map f xs) i = Inr (f x)"
  by (auto simp: py_get_def split: if_splits)

lemma row_ok_stored: "row_ok cids cs qi r \<Longrightarrow> row_ok cids cs qi (stored ext r)"
  unfolding row_ok_def by (auto simp: stored_def dest: py_get_map)

lemma died_none:
  assumes "\<forall>out \<in> set outs. snd out = None"
  shows "died outs = []"
proof -
  have "(case x of (p, out) \<Rightarrow> case snd out of None \<Rightarrow> [] | Some e \<Rightarrow> [WorkerDied p e]) = []"
    if "x \<in> set (enumerate_from0 outs)" for x
  proof -
    obtain p out where x: "x = (p, out)" by (cases x)
    then have "out \<in> set outs" using that by (auto simp: enumerate_from0_def dest: set_zip_rightD)
    then show ?thesis using assms x by simp
  qed
  then show ?thesis by (simp add: died_def)
qed

lemma row_of_row_ok:
  assumes "0 < cs" and "item \<in> set (dispatch cs corpus)" and "row_of n_q item r" and "qi < n_q"
  shows "row_ok (map c_id corpus) cs qi r"
proof -
  obtain b chunk where item: "item = (b, chunk)" by (cases item)
  have bl: "b < length (batches (nat cs) corpus)" and ch: "chunk = batches (nat cs) corpus ! b"
    using assms(2) by (auto simp: dispatch_def enumerate_from0_def item in_set_zip)
  let ?ix = "cos_scores_top_k_idx r ! qi"
  have li: "qi < length (cos_scores_top_k_idx r)" and lv: "qi < length (cos_scores_top_k_values r)"
    and bi: "batch_index r = int b" and rng: "0 \<le> ?ix" "?ix < int (length chunk)"
    using assms(3,4) by (auto simp: row_of_def item)
  have 1: "py_get (cos_scores_top_k_idx r) (int qi) = Inr ?ix" using li by (simp add: py_get_nat)
  have 2: "py_get (cos_scores_top_k_values r) (int qi) = Inr (cos_scores_top_k_values r ! qi)"
    using lv by (simp add: py_get_nat)
  have il: "nat ?ix < length (batches (nat cs) corpus ! b)" using rng ch by simp
  have "py_get (map c_id corpus) (int (nat ?ix) + int b * cs)
          = Inr (c_id (batches (nat cs) corpus ! b ! nat ?ix))"
    by (rule py_get_batches[OF assms(1) bl il])
  then have 3: "py_get (map c_id corpus) (?ix + batch_index r * cs)
          = Inr (c_id (batches (nat cs) corpus ! b ! nat ?ix))"
    using rng(1) bi by simp
  show ?thesis unfolding row_ok_def using 1 2 3 by blast
qed

lemma batches_nonempty: "0 < n \<Longrightarrow> xs \<noteq> [] \<Longrightarrow> batches n xs \<noteq> []"
  by (simp add: batches_Cons)

lemma length_encode_query_batches:
  assumes "shaped ext" and "0 < cs"
  shows "length (concat (encode_query_batches ext cs queries)) = length queries"
proof -
  have e: "\<And>b. length (encode_queries ext (map q_text b)) = length b"
    using assms(1) by (simp add: shaped_def)
  have "length (concat (encode_query_batches ext cs queries))
      = sum_list (map length (batches (nat cs) queries))"
    by (simp add: encode_query_batches_def length_concat comp_def e)
  also have "\<dots> = length (concat (batches (nat cs) queries))" by (simp add: length_concat)
  also have "\<dots> = length queries" using assms(2) by (simp add: concat_batches)
  finally show ?thesis .
qed

lemma doc_lens_ok: "\<forall>x \<in> set xs. c_title x \<noteq> NullTitle \<Longrightarrow> \<exists>ns. doc_lens xs = Inr ns"
  by (induction xs) (auto simp: doc_len_def split: title.splits)

lemma reorder_ok:
  "\<forall>x \<in> set corpus. c_title x \<noteq> NullTitle \<Longrightarrow> \<exists>corpus1. reorder self corpus = Inr corpus1"
  using doc_lens_ok[of corpus] by (auto simp: reorder_def sort_by_len_def)

lemma search_succeeds:
  assumes sh: "shaped ext" and ts: "topk_selects (topk ext)"
    and sf: "sf \<in> {''cos_sim'', ''dot''}"
    and c: "chunk_size_or_default self (length corpus) = Inr c" "1 \<le> c"
    and corpus: "2 \<le> length corpus" and queries: "2 \<le> length queries"
    and titles: "\<forall>x \<in> set corpus. c_title x \<noteq> NullTitle"
    and dev: "target_devices self \<noteq> []" and t: "-1 \<le> t"
  shows "\<exists>res. fst (search ext self corpus queries t sf) = Inr res"
    and "\<forall>p e. WorkerDied p e \<notin> set (snd (snd (search ext self corpus queries t sf)))"
proof -
  define cs where "cs = min c (int (length corpus) - 1)"
  define self0 where "self0 = self\<lparr>corpus_chunk_size := Some cs\<rparr>"
  define Q where "Q = concat (encode_query_batches ext cs queries)"
  define self1 where "self1 = set_job self0 Q t sf"
  obtain corpus1 where re: "reorder self0 corpus = Inr corpus1"
    using reorder_ok[OF titles] by blast
  define items where "items = dispatch cs corpus1"
  define outs where "outs = run_pool ext self1 items"
  define merged where "merged = format_results (map q_id queries) (map c_id corpus1) (length Q) cs (read_all ext outs)"
  obtain f where f: "score_functions ext sf = Some f"
    using sf score_functions_None[of ext sf] by auto
  have known: "score_functions ext sf \<noteq> None" using f by simp
  have cs: "0 < cs" using c(2) corpus by (simp add: cs_def)
  have eq: "search ext self corpus queries t sf = run_job ext self0 cs corpus1 queries t sf"
    using search_chunk_size(1)[OF known c(1), of queries t] re
    by (simp add: self0_def cs_def search_job_def)
  have lQ: "length Q = length queries"
    unfolding Q_def by (rule length_encode_query_batches[OF sh cs])
  have ne: "encode_query_batches ext cs queries \<noteq> []"
  proof -
    have "queries \<noteq> []" using queries by auto
    then have "batches (nat cs) queries \<noteq> []" using cs by (intro batches_nonempty) simp_all
    then show ?thesis by (simp add: encode_query_batches_def)
  qed
  have d0: "length (target_devices self0) \<noteq> 0" using dev by (simp add: self0_def)
  have s1: "score_function self1 = Some sf" "query_embeddings self1 = Some Q" "top_k self1 = Some t"
    by (simp_all add: self1_def set_job_def)
  have two: "2 \<le> length Q" using lQ queries by simp
  note pool = run_pool_ok[OF sh ts s1(1) f s1(2) two s1(3) t, of items, folded outs_def]
  have ok: "\<forall>qi < length Q. \<forall>r \<in> set (read_all ext outs). row_ok (map c_id corpus1) cs qi r"
  proof (intro allI impI ballI)
    fix qi r assume qi: "qi < length Q" and r: "r \<in> set (read_all ext outs)"
    then obtain r0 where r0: "r0 \<in> set (concat (map fst outs))" and rr: "r = stored ext r0"
      by (auto simp: read_all_def)
    from pool r0 have "r0 = warmup \<or> (\<exists>item \<in> set items. row_of (length Q) item r0)" by blast
    then have "row_ok (map c_id corpus1) cs qi r0"
    proof
      assume "r0 = warmup" then show ?thesis by (simp add: row_ok_def warmup_def)
    next
      assume "\<exists>item \<in> set items. row_of (length Q) item r0"
      then obtain item where "item \<in> set (dispatch cs corpus1)" "row_of (length Q) item r0"
        unfolding items_def by blast
      then show ?thesis using row_of_row_ok[OF cs _ _ qi] by blast
    qed
    then show "row_ok (map c_id corpus1) cs qi r" unfolding rr by (rule row_ok_stored)
  qed
  have n: "length Q \<le> length (map q_id queries)" using lQ by simp
  have m: "snd merged = None"
    unfolding merged_def by (rule format_results_ok[OF n ok])
  have job: "run_job ext self0 cs corpus1 queries t sf =
      ((case snd merged of None \<Rightarrow> Inr (fst merged) | Some e \<Rightarrow> Inl e),
       self1\<lparr>results := fst merged\<rparr>,
       map (\<lambda>b. EncodeQueries (map q_text b)) (batches (nat cs) queries)
         @ map (\<lambda>item. Dispatch (fst item)) items @ died outs)"
    unfolding run_job_def merged_def outs_def items_def self1_def Q_def
    using cs ne d0 by (simp add: Let_def)
  show "\<exists>res. fst (search ext self corpus queries t sf) = Inr res"
    unfolding eq job using m by simp
  have "died outs = []" using pool by (intro died_none) blast
  then show "\<forall>p e. WorkerDied p e \<notin> set (snd (snd (search ext self corpus queries t sf)))"
    unfolding eq job by auto
qed

section \<open>What is dispatched, and where a candidate ends up\<close>

lemma batches_take_drop:
  "0 < n \<Longrightarrow>
   batches n xs = map (\<lambda>b. take n (drop (b * n) xs)) [0..<(length xs + n - 1) div n]"
proof (induction n xs rule: batches.induct)
  case (1 n xs)
  show ?case
  proof (cases "xs = []")
    case True
    then show ?thesis using "1.prems" by simp
  next
    case False
    have nz: "\<not> (n = 0 \<or> xs = [])" using "1.prems" False by simp
    have ih: "batches n (drop n xs)
        = map (\<lambda>b. take n (drop (b * n) (drop n xs))) [0..<(length (drop n xs) + n - 1) div n]"
      by (rule "1.IH"[OF nz "1.prems"])
    have pos: "0 < length xs" using False by simp
    have cnt: "(length xs + n - 1) div n = Suc ((length (drop n xs) + n - 1) div n)"
    proof (cases "n \<le> length xs")
      case True
      have "(length xs + n - 1) div n = Suc ((length xs + n - 1 - n) div n)"
        using "1.prems" True pos by (intro le_div_geq) auto
      moreover have "length xs + n - 1 - n = length (drop n xs) + n - 1"
        using True "1.prems" by simp
      ultimately show ?thesis by simp
    next
      case False
      then have "length (drop n xs) = 0" by simp
      moreover have "(length xs + n - 1) div n = 1"
      proof -
        have e: "length xs + n - 1 = n + (length xs - 1)" using pos by linarith
        have "length xs - 1 < n" using False by linarith
        then have "(n + (length xs - 1)) div n = 1" using "1.prems" by simp
        then show ?thesis by (simp only: e)
      qed
      moreover have "(0 + n - 1) div n = 0" using "1.prems" by simp
      ultimately show ?thesis by simp
    qed
    have "map (\<lambda>b. take n (drop (b * n) xs)) [0..<Suc ((length (drop n xs) + n - 1) div n)]
        = take n xs # map (\<lambda>b. take n (drop (Suc b * n) xs)) [0..<(length (drop n xs) + n - 1) div n]"
      by (simp add: upt_conv_Cons map_Suc_upt[symmetric] del: upt_Suc)
    also have "\<dots> = take n xs # batches n (drop n xs)"
      unfolding ih by (simp add: add.commute)
    finally show ?thesis using batches_Cons[OF "1.prems" False] cnt by simp
  qed
qed

lemma length_batches: "0 < n \<Longrightarrow> length (batches n xs) = (length xs + n - 1) div n"
  by (simp add: batches_take_drop)

lemma batches_nth_take_drop:
  "0 < n \<Longrightarrow> b < length (batches n xs) \<Longrightarrow> batches n xs ! b = take n (drop (b * n) xs)"
  using batches_take_drop[of n xs] by (simp add: length_batches)

lemma dispatched_append: "dispatched (xs @ ys) = dispatched xs @ dispatched ys"
  by (induction xs rule: dispatched.induct) simp_all

lemma dispatched_encoded: "dispatched (map (\<lambda>b. EncodeQueries (g b)) bs) = []"
  by (induction bs) simp_all

lemma dispatched_died: "dispatched (died outs) = []"
proof -
  have "dispatched (concat (map h xs)) = []"
    if "\<And>x. x \<in> set xs \<Longrightarrow> dispatched (h x) = []" for h :: "'a \<Rightarrow> event list" and xs
    using that by (induction xs) (simp_all add: dispatched_append)
  from this[of "enumerate_from0 outs"
              "\<lambda>(p, out). case snd out of None \<Rightarrow> [] | Some e \<Rightarrow> [WorkerDied p e]"]
  show ?thesis unfolding died_def by (auto split: option.splits)
qed

lemma dispatched_items: "dispatched (map (\<lambda>item. Dispatch (fst item)) items) = map fst items"
  by (induction items) simp_all

lemma run_job_dispatched:
  assumes "fst (run_job ext self cs corpus queries t sf) = Inr res"
  shows "dispatched (snd (snd (run_job ext self cs corpus queries t sf)))
           = map fst (dispatch cs corpus)"
proof -
  from run_job_Inr[OF assms] have cs: "\<not> cs \<le> 0"
    and ne: "encode_query_batches ext cs queries \<noteq> []"
    and dv: "length (target_devices self) \<noteq> 0" by auto
  show ?thesis
    unfolding run_job_def using cs ne dv
    by (simp add: Let_def dispatched_append dispatched_encoded dispatched_died dispatched_items)
qed

lemma worker_loop_contains:
  assumes "snd (worker_loop ext self items) = None" and "item \<in> set items"
    and "process_batch ext self item = Inr rows"
  shows "set rows \<subseteq> set (fst (worker_loop ext self items))"
  using assms(1,2)
proof (induction items)
  case Nil then show ?case by simp
next
  case (Cons it its)
  from Cons.prems(1) obtain rs where rs: "process_batch ext self it = Inr rs"
    by (cases "process_batch ext self it") auto
  obtain rest eo where w: "worker_loop ext self its = (rest, eo)" by force
  have eo: "eo = None" using Cons.prems(1) rs w by simp
  show ?case
  proof (cases "item = it")
    case True
    then show ?thesis using rs w assms(3) by auto
  next
    case False
    then have "item \<in> set its" using Cons.prems(2) by simp
    then have "set rows \<subseteq> set rest" using Cons.IH w eo by simp
    then show ?thesis using rs w by auto
  qed
qed

lemma process_batch_Inr_D:
  assumes sh: "shaped ext" and pb: "process_batch ext self item = Inr rows"
    and qe: "query_embeddings self = Some Q" and tk: "top_k self = Some t"
  shows "2 \<le> length Q \<and> -1 \<le> t"
proof -
  from pb obtain name f where
    sf: "score_function self = Some name" "score_functions ext name = Some f"
    by (auto simp: process_batch_def Let_def split: option.splits)
  let ?E = "encode_corpus ext (snd item)"
  let ?S = "map (map replace_nan) (f Q ?E)"
  have two: "\<not> length ?S < 2" and k: "\<not> min (t + 1) (int (length (?S ! 1))) < 0"
    using pb sf qe tk by (auto simp: process_batch_def Let_def split: if_splits)
  have fin: "f \<in> {cos_sim ext, dot_score ext}" using sf(2) by (rule score_functions_Some)
  have "length (f Q ?E) = length Q" using sh fin unfolding shaped_def by blast
  then have "2 \<le> length Q" using two by simp
  moreover have "-1 \<le> t" using k by simp
  ultimately show ?thesis by simp
qed

lemma run_job_enters_candidates:
  assumes sh: "shaped ext" and ts: "topk_selects (topk ext)"
    and f: "score_functions ext sf = Some f"
    and run: "fst (run_job ext self cs corpus1 queries t sf) = Inr res"
    and b: "b < length (batches (nat cs) corpus1)"
    and pb: "process_batch ext (set_job self (concat (encode_query_batches ext cs queries)) t sf)
               (b, batches (nat cs) corpus1 ! b) = Inr rows"
    and r: "r \<in> set rows" and qi: "qi < length queries"
  shows "\<exists>i. cos_scores_top_k_idx r ! qi = int i
           \<and> i < length (batches (nat cs) corpus1 ! b)
           \<and> (c_id (batches (nat cs) corpus1 ! b ! i) \<noteq> q_id (queries ! qi) \<longrightarrow>
                (\<exists>m. map_of res (q_id (queries ! qi)) = Some m
                   \<and> c_id (batches (nat cs) corpus1 ! b ! i) \<in> fst ` set m))"
proof -
  define Q where "Q = concat (encode_query_batches ext cs queries)"
  define self1 where "self1 = set_job self Q t sf"
  define items where "items = dispatch cs corpus1"
  define outs where "outs = run_pool ext self1 items"
  define item where "item = (b, batches (nat cs) corpus1 ! b)"
  let ?chunk = "batches (nat cs) corpus1 ! b"
  from run_job_Inr[OF run] have cs: "0 < cs" and dv: "target_devices self \<noteq> []"
    and fr: "format_results (map q_id queries) (map c_id corpus1) (length Q) cs (read_all ext outs)
               = (res, None)"
    unfolding Q_def self1_def items_def outs_def by auto
  have lQ: "length Q = length queries"
    unfolding Q_def by (rule length_encode_query_batches[OF sh cs])
  have s1: "score_function self1 = Some sf" "query_embeddings self1 = Some Q" "top_k self1 = Some t"
    by (simp_all add: self1_def set_job_def)
  have pb1: "process_batch ext self1 item = Inr rows"
    using pb unfolding self1_def Q_def item_def .
  from process_batch_Inr_D[OF sh pb1 s1(2,3)] have two: "2 \<le> length Q" and t: "-1 \<le> t" by auto
  have ro: "row_of (length Q) item r"
    using process_batch_row_of[OF sh ts s1(1) f s1(2) two s1(3) t, of item] pb1 r by auto
  have mem: "item \<in> set items"
    unfolding item_def items_def dispatch_def enumerate_from0_def
    using b by (auto simp: in_set_zip intro!: exI[of _ b])
  let ?W = "length (target_devices self1)"
  have W: "0 < ?W" using dv by (simp add: self1_def set_job_def)
  let ?p = "sched ext b mod ?W"
  let ?its = "filter (\<lambda>item. sched ext (fst item) mod ?W = ?p) items"
  have p: "?p < ?W" using W by simp
  have mem': "item \<in> set ?its" using mem by (simp add: item_def)
  have noerr: "snd (worker_loop ext self1 ?its) = None"
    using worker_loop_ok[OF sh ts s1(1) f s1(2) two s1(3) t, of ?its] by blast
  have sub: "set rows \<subseteq> set (fst (worker_loop ext self1 ?its))"
    by (rule worker_loop_contains[OF noerr mem' pb1])
  have "r \<in> set (fst (encode_multi_process_worker ext self1 ?its))"
  proof -
    obtain ws eo where w: "worker_loop ext self1 ?its = (ws, eo)" by force
    then show ?thesis using sub r by (auto simp: encode_multi_process_worker_def)
  qed
  moreover have "encode_multi_process_worker ext self1 ?its \<in> set outs"
    unfolding outs_def run_pool_def Let_def using p by (auto intro!: image_eqI[of _ _ ?p])
  ultimately have "r \<in> set (concat (map fst outs))" by auto
  then have rin: "stored ext r \<in> set (read_all ext outs)" by (simp add: read_all_def)
  have bi: "batch_index (stored ext r) = int b" using ro by (simp add: row_of_def item_def)
  then have ns: "batch_index (stored ext r) \<noteq> -1" by simp
  have qn: "qi < length Q" using qi lQ by simp
  from format_results_candidate[OF fr qn rin ns] obtain qid ix cid where
    g: "py_get (map q_id queries) (int qi) = Inr qid"
       "py_get (cos_scores_top_k_idx (stored ext r)) (int qi) = Inr ix"
       "py_get (map c_id corpus1) (ix + batch_index (stored ext r) * cs) = Inr cid"
       "cid \<noteq> qid \<longrightarrow> (\<exists>m. map_of res qid = Some m \<and> cid \<in> fst ` set m)"
    by blast
  have qid: "qid = q_id (queries ! qi)" using g(1) qi by (simp add: py_get_nat)
  have li: "qi < length (cos_scores_top_k_idx r)" using ro qn by (simp add: row_of_def)
  have ix: "ix = cos_scores_top_k_idx r ! qi" using g(2) li by (simp add: py_get_nat)
  have rng: "0 \<le> cos_scores_top_k_idx r ! qi" "cos_scores_top_k_idx r ! qi < int (length ?chunk)"
    using ro qn by (auto simp: row_of_def item_def)
  define i where "i = nat (cos_scores_top_k_idx r ! qi)"
  have ii: "cos_scores_top_k_idx r ! qi = int i" and il: "i < length ?chunk"
    using rng by (simp_all add: i_def)
  have "py_get (map c_id corpus1) (int i + int b * cs) = Inr (c_id (?chunk ! i))"
    by (rule py_get_batches[OF cs b il])
  then have cid: "cid = c_id (?chunk ! i)" using g(3) ix ii bi by simp
  show ?thesis using ii il g(4)[unfolded cid qid] by blast
qed

section \<open>Claims\<close>

text \<open>
  Claim C1 as stated (\<^verbatim>\<open>len(results[q]) <= top_k\<close> for every query, whatever the number of
  chunks) fails: the merge enters every candidate of every chunk and never trims. With
  \<^verbatim>\<open>top_k = 1\<close> and a corpus of four items in two chunks of two, each chunk yields
  \<open>min (top_k + 1) 2 = 2\<close> candidates per query; one query ends with three entries (its
  own id dropped), the other with four.
\<close>

theorem result_size_exceeds_top_k:
  "fst (search toy (init toy 128 (Some 2) (Some [Cpu])) toy_corpus toy_queries 1 ''dot'') =
     Inr [(''q0'', [(''d0'', Fin 12), (''d2'', Fin 6), (''d3'', Fin 3)]),
          (''q1'', [(''d0'', Fin 8), (''q0'', Fin 6), (''d2'', Fin 4), (''d3'', Fin 2)])]
   \<and> \<not> int (length [(''d0'', Fin 12), (''d2'', Fin 6), (''d3'', Fin 3)]) \<le> 1
   \<and> \<not> int (length [(''d0'', Fin 8), (''q0'', Fin 6), (''d2'', Fin 4), (''d3'', Fin 2)]) \<le> 1"
  using toy_run by simp

text \<open>
  Claim C1, amended. For every query \<open>q\<close> of a run that returns (query ids distinct,
  encoders and similarity functions of the promised shapes), \<^verbatim>\<open>len(results[q])\<close> is at
  most the number of real records, which is at most the sum over the corpus chunks of
  \<open>min (top_k + 1) n_chunk_items\<close>: the bound grows with the number of chunks.
\<close>

theorem result_size_bound:
  assumes run: "fst (search ext self corpus queries t sf) = Inr res"
    and cs: "corpus_chunk_size (fst (snd (search ext self corpus queries t sf))) = Some chunk_size"
    and sh: "shaped ext"
    and dq: "distinct (map q_id queries)"
    and m: "map_of res q = Some m"
  shows "length m \<le> (\<Sum>c\<leftarrow>batches (nat chunk_size) corpus. nat (min (t + 1) (int (length c))))"
proof -
  from search_cases[OF run] obtain c where
    c: "chunk_size_or_default self (length corpus) = Inr c" and
    job: "fst (search_job ext (self\<lparr>corpus_chunk_size := Some (min c (int (length corpus) - 1))\<rparr>)
              (min c (int (length corpus) - 1)) corpus queries t sf) = Inr res" by blast
  have "corpus_chunk_size (fst (snd (search ext self corpus queries t sf)))
          = Some (min c (int (length corpus) - 1))"
    by (rule search_chunk_size(2)[OF search_Inr_known[OF run] c])
  then have cseq: "min c (int (length corpus) - 1) = chunk_size" using cs by simp
  from search_job_Inr[OF job[unfolded cseq]] obtain corpus1 where
    re: "reorder (self\<lparr>corpus_chunk_size := Some chunk_size\<rparr>) corpus = Inr corpus1" and
    fr: "format_results (map q_id queries) (map c_id corpus1)
           (length (concat (encode_query_batches ext chunk_size queries))) chunk_size
           (read_all ext (run_pool ext
              (set_job (self\<lparr>corpus_chunk_size := Some chunk_size\<rparr>)
                 (concat (encode_query_batches ext chunk_size queries)) t sf)
              (dispatch chunk_size corpus1))) = (res, None)"
    by blast
  let ?n = "length (concat (encode_query_batches ext chunk_size queries))"
  let ?self1 = "set_job (self\<lparr>corpus_chunk_size := Some chunk_size\<rparr>)
                  (concat (encode_query_batches ext chunk_size queries)) t sf"
  let ?rows = "read_all ext (run_pool ext ?self1 (dispatch chunk_size corpus1))"
  have l: "length corpus1 = length corpus" by (rule length_reorder[OF re])
  have t1: "top_k ?self1 = Some t" by (rule top_k_set_job)
  let ?g = "\<lambda>k. nat (min (t + 1) (int k))"
  have "length m = rlen res q" using m by (simp add: rlen_def)
  also have "\<dots> \<le> length (real_rows ?rows)"
    using format_results_rlen[OF dq, of "map c_id corpus1" ?n chunk_size ?rows q] fr by simp
  also have "\<dots> \<le> (\<Sum>item\<leftarrow>dispatch chunk_size corpus1. ?g (length (snd item)))"
    by (rule run_pool_real_rows[OF sh t1])
  also have "\<dots> = (\<Sum>c\<leftarrow>batches (nat chunk_size) corpus1. ?g (length c))"
    unfolding dispatch_def by (rule sum_enumerate_from0[of "\<lambda>c. ?g (length c)"])
  also have "\<dots> = (\<Sum>c\<leftarrow>batches (nat chunk_size) corpus. ?g (length c))"
    by (rule sum_batches_length[OF l])
  finally show ?thesis .
qed

theorem result_size_bound_witness:
  "fst (search toy (init toy 128 (Some 2) (Some [Cpu])) toy_corpus toy_queries 1 ''dot'') =
     Inr [(''q0'', [(''d0'', Fin 12), (''d2'', Fin 6), (''d3'', Fin 3)]),
          (''q1'', [(''d0'', Fin 8), (''q0'', Fin 6), (''d2'', Fin 4), (''d3'', Fin 2)])]
   \<and> length [(''d0'', Fin 8), (''q0'', Fin 6), (''d2'', Fin 4), (''d3'', Fin 2)]
       \<le> (\<Sum>c\<leftarrow>batches (nat 2) toy_corpus. nat (min (1 + 1) (int (length c))))
   \<and> (\<Sum>c\<leftarrow>batches (nat 2) toy_corpus. nat (min (1 + 1) (int (length c)))) = 4"
proof -
  have look: "map_of [(''q0'', [(''d0'', Fin 12), (''d2'', Fin 6), (''d3'', Fin 3)]),
          (''q1'', [(''d0'', Fin 8), (''q0'', Fin 6), (''d2'', Fin 4), (''d3'', Fin 2)])] ''q1''
        = Some [(''d0'', Fin 8), (''q0'', Fin 6), (''d2'', Fin 4), (''d3'', Fin 2)]" by simp
  have dq: "distinct (map q_id toy_queries)" by (simp add: toy_queries_def query_def)
  have total: "(\<Sum>c\<leftarrow>batches (nat 2) toy_corpus. nat (min (1 + 1) (int (length c)))) = 4"
    by code_simp
  show ?thesis
    using toy_run total result_size_bound[OF toy_run toy_run_chunk_size shaped_toy dq look]
    by blast
qed

text \<open>
  Claim C2. When the merge completes, for every query index \<open>qi\<close> and every record \<open>r\<close>
  that is not a sentinel, the candidate is looked up in the corpus id sequence at
  position \<^verbatim>\<open>indices[j][qi] + batch_index * chunk_size\<close>, and unless it is the query's own
  id it is a key of the query's result. That position is the right one for the streamed
  order: for the record of chunk \<open>b\<close> and local index \<open>i\<close> it holds the id of item \<open>i\<close> of
  chunk \<open>b\<close>. (The witness is the chunk-boundary scenario: chunk size 3, local index 2 of
  batch 1, global position 5.)
\<close>

theorem candidate_global_position:
  assumes "format_results query_ids (map c_id corpus) n chunk_size rows = (res, None)"
    and "r \<in> set rows" and "batch_index r \<noteq> -1" and "qi < n"
  shows "\<exists>query_id ix corpus_id.
           py_get query_ids (int qi) = Inr query_id
         \<and> py_get (cos_scores_top_k_idx r) (int qi) = Inr ix
         \<and> py_get (map c_id corpus) (ix + batch_index r * chunk_size) = Inr corpus_id
         \<and> (corpus_id \<noteq> query_id \<longrightarrow>
              (\<exists>m. map_of res query_id = Some m \<and> corpus_id \<in> fst ` set m))
         \<and> (\<forall>b i. 0 < chunk_size \<longrightarrow> batch_index r = int b \<longrightarrow> ix = int i \<longrightarrow>
                b < length (batches (nat chunk_size) corpus) \<longrightarrow>
                i < length (batches (nat chunk_size) corpus ! b) \<longrightarrow>
                corpus_id = c_id (batches (nat chunk_size) corpus ! b ! i))"
proof -
  from format_results_candidate[OF assms(1,4,2,3)] obtain query_id ix corpus_id where
    c: "py_get query_ids (int qi) = Inr query_id"
       "py_get (cos_scores_top_k_idx r) (int qi) = Inr ix"
       "py_get (map c_id corpus) (ix + batch_index r * chunk_size) = Inr corpus_id"
       "corpus_id \<noteq> query_id \<longrightarrow> (\<exists>m. map_of res query_id = Some m \<and> corpus_id \<in> fst ` set m)"
    by blast
  have "corpus_id = c_id (batches (nat chunk_size) corpus ! b ! i)"
    if "0 < chunk_size" "batch_index r = int b" "ix = int i"
       "b < length (batches (nat chunk_size) corpus)"
       "i < length (batches (nat chunk_size) corpus ! b)" for b i
    using py_get_batches[OF that(1,4,5), of c_id] c(3) that(2,3) by simp
  with c show ?thesis by blast
qed

theorem candidate_global_position_witness:
  "format_results [''q0''] (map c_id toy_corpus7) 1 3 [warmup, toy_row5] = ([(''q0'', [(''d5'', Fin 6)])], None)
   \<and> batch_index toy_row5 = 1 \<and> cos_scores_top_k_idx toy_row5 ! 0 = 2 
   \<and> py_get (map c_id toy_corpus7) (2 + 1 * 3) = Inr ''d5''
   \<and> py_get (map c_id toy_corpus7) 5 = Inr ''d5''
   \<and> map (map c_id) (batches 3 toy_corpus7) = [[''d0'', ''d1'', ''d2''], [''d3'', ''d4'', ''d5''], [''d6'']]"
proof -
  have r: "toy_row5 \<in> set [warmup, toy_row5]" by simp
  have b: "batch_index toy_row5 \<noteq> -1" by (simp add: toy_row5_def)
  have q: "(0::nat) < 1" by simp
  from candidate_global_position[OF toy_merge7 r b q]
  obtain ix corpus_id where
    "py_get (cos_scores_top_k_idx toy_row5) (int 0) = Inr ix"
    "py_get (map c_id toy_corpus7) (ix + batch_index toy_row5 * 3) = Inr corpus_id"
    by blast
  then have "py_get (map c_id toy_corpus7) (2 + 1 * 3) = Inr corpus_id"
    by (simp add: toy_row5_def py_get_def)
  moreover have "py_get (map c_id toy_corpus7) 5 = Inr ''d5''"
    by (simp add: toy_corpus7_def doc_def py_get_def)
  ultimately show ?thesis using toy_merge7 toy_batches7 by (simp add: toy_row5_def)
qed

text \<open>
  Claim C3. Whatever \<^verbatim>\<open>search\<close> returns, under every chunk size, device list and
  scheduling, a query's own id is never a key of its inner dictionary: a candidate whose
  corpus id equals the query id is dropped by the merge.
\<close>

theorem search_never_returns_self_match:
  assumes "fst (search ext self corpus queries t sf) = Inr res" and "map_of res q = Some m"
  shows "q \<notin> fst ` set m"
proof -
  from search_cases[OF assms(1)] obtain c where
    "fst (search_job ext (self\<lparr>corpus_chunk_size := Some (min c (int (length corpus) - 1))\<rparr>)
              (min c (int (length corpus) - 1)) corpus queries t sf) = Inr res" by blast
  from search_job_Inr[OF this] obtain qids cids n cs rows where
    "format_results qids cids n cs rows = (res, None)" by blast
  then have "fst (format_results qids cids n cs rows) = res" by simp
  with format_results_no_self[of qids cids n cs rows q m] assms(2) show ?thesis by simp
qed

theorem search_never_returns_self_match_witness:
  "fst (search toy (init toy 128 (Some 2) (Some [Cpu])) toy_corpus toy_queries 1 ''dot'') =
     Inr [(''q0'', [(''d0'', Fin 12), (''d2'', Fin 6), (''d3'', Fin 3)]),
          (''q1'', [(''d0'', Fin 8), (''q0'', Fin 6), (''d2'', Fin 4), (''d3'', Fin 2)])]
   \<and> ''q0'' \<in> set (map c_id toy_corpus)
   \<and> ''q0'' \<notin> fst ` set [(''d0'', Fin 12), (''d2'', Fin 6), (''d3'', Fin 3)]"
proof -
  have look: "map_of [(''q0'', [(''d0'', Fin 12), (''d2'', Fin 6), (''d3'', Fin 3)]),
          (''q1'', [(''d0'', Fin 8), (''q0'', Fin 6), (''d2'', Fin 4), (''d3'', Fin 2)])] ''q0''
        = Some [(''d0'', Fin 12), (''d2'', Fin 6), (''d3'', Fin 3)]" by simp
  have "''q0'' \<in> set (map c_id toy_corpus)" by (simp add: toy_corpus_def doc_def)
  then show ?thesis
    using toy_run search_never_returns_self_match[OF toy_run look] by blast
qed

text \<open>
  Claim C4 as stated says that the emitted values and indices have the query as outer
  index. They have not: the worker emits the transposed tensors, one example per
  selected slot \<open>j\<close>, each holding one entry per query. With two queries and
  \<^verbatim>\<open>top_k = 0\<close> a chunk of three items yields one example of two entries.
\<close>

theorem emitted_outer_index_is_candidate:
  "process_batch toy toy_worker_state (0, take 3 toy_corpus) = Inr [toy_row0]
   \<and> query_embeddings toy_worker_state = Some [3, 2]
   \<and> length [toy_row0] \<noteq> length [3, 2 :: int]
   \<and> length (cos_scores_top_k_values toy_row0) = length [3, 2 :: int]
   \<and> length (cos_scores_top_k_idx toy_row0) = length [3, 2 :: int]"
  using toy_batch_top0 by (simp add: toy_worker_state_def toy_row0_def)

text \<open>
  Claim C4, amended. With at least two queries (and \<open>top_k \<ge> -1\<close>, a known score function,
  collaborators of the promised shapes), for every chunk the worker emits
  \<open>k = min (top_k + 1) n_chunk_items\<close> examples tagged with the chunk's batch index, each
  with one value and one index per query (outer index the slot \<open>j\<close>, inner index the
  query). For every query the \<open>k\<close> indices are distinct positions of the chunk, each value
  is the (NaN-replaced) score at its index, and no item left out scores higher than a
  selected one; no order among the selected is promised.
\<close>

theorem worker_selection:
  assumes "shaped ext" and "topk_selects (topk ext)"
    and "score_function self = Some name" and "score_functions ext name = Some f"
    and "query_embeddings self = Some Q" and "2 \<le> length Q"
    and "top_k self = Some t" and "-1 \<le> t"
  shows "\<exists>rows. process_batch ext self (b, chunk) = Inr rows
     \<and> length rows = nat (min (t + 1) (int (length chunk)))
     \<and> (\<forall>r \<in> set rows. batch_index r = int b
           \<and> length (cos_scores_top_k_values r) = length Q
           \<and> length (cos_scores_top_k_idx r) = length Q)
     \<and> (\<forall>qi < length Q.
           distinct (map (\<lambda>r. cos_scores_top_k_idx r ! qi) rows)
         \<and> (\<forall>r \<in> set rows.
               0 \<le> cos_scores_top_k_idx r ! qi
             \<and> cos_scores_top_k_idx r ! qi < int (length chunk)
             \<and> cos_scores_top_k_values r ! qi
                 = replace_nan (f Q (encode_corpus ext chunk) ! qi ! nat (cos_scores_top_k_idx r ! qi)))
         \<and> (\<forall>c < length chunk.
               int c \<notin> (\<lambda>r. cos_scores_top_k_idx r ! qi) ` set rows \<longrightarrow>
               (\<forall>r \<in> set rows.
                  score_le (replace_nan (f Q (encode_corpus ext chunk) ! qi ! c))
                           (cos_scores_top_k_values r ! qi))))"
  by (rule process_batch_selects[OF assms])

theorem worker_selection_witness:
  "process_batch toy (toy_worker_state\<lparr>top_k := Some 1\<rparr>) (0, take 3 toy_corpus) = Inr [toy_row0, toy_row0b]
   \<and> length [toy_row0, toy_row0b] = nat (min (1 + 1) (int (length (take 3 toy_corpus))))
   \<and> dot_score toy [3, 2] (encode_corpus toy (take 3 toy_corpus)) = [[Fin 12, Fin 9, Fin 6], [Fin 8, Fin 6, Fin 4]]"
proof -
  have a: "score_function (toy_worker_state\<lparr>top_k := Some 1\<rparr>) = Some ''dot''"
    and b: "score_functions toy ''dot'' = Some (dot_score toy)"
    and c: "query_embeddings (toy_worker_state\<lparr>top_k := Some 1\<rparr>) = Some [3, 2]"
    and d: "2 \<le> length [3, 2 :: int]"
    and e: "top_k (toy_worker_state\<lparr>top_k := Some 1\<rparr>) = Some 1"
    and f: "- 1 \<le> (1 :: int)"
    by (simp_all add: toy_worker_state_def score_functions_def)
  from worker_selection[OF shaped_toy toy_topk a b c d e f, of 0 "take 3 toy_corpus"]
  obtain rows where "process_batch toy (toy_worker_state\<lparr>top_k := Some 1\<rparr>) (0, take 3 toy_corpus) = Inr rows"
    "length rows = nat (min (1 + 1) (int (length (take 3 toy_corpus))))" by blast
  moreover have "dot_score toy [3, 2] (encode_corpus toy (take 3 toy_corpus)) = [[Fin 12, Fin 9, Fin 6], [Fin 8, Fin 6, Fin 4]]"
    by code_simp
  ultimately show ?thesis using toy_batch_top1 by simp
qed

text \<open>
  Claim C5 as stated says that a replaced not-a-number never wins the selection, so that
  a zero-vector item never appears in a result. It does: line 166 selects
  \<^verbatim>\<open>min(top_k + 1, n)\<close> items of the chunk whatever their scores. Here no document has a
  title, the corpus of four is cut into chunks of two, \<^verbatim>\<open>top_k = 1\<close>, and the item \<open>z\<close>,
  whose vector is zero, ends in both queries' results: with score -1 under a cosine that
  gives not-a-number for a zero vector, and with score 0 under a cosine that clamps the
  norms (three real candidates score higher in either case).
\<close>

theorem zero_vector_item_in_results:
  "toy_zero_doc \<in> set toy_corpus_zero
   \<and> map c_title toy_corpus_zero = [NoTitle, NoTitle, NoTitle, NoTitle]
   \<and> encode_corpus toy [toy_zero_doc] = [0]
   \<and> cos_sim toy [3, 2] [0] = [[NaN], [NaN]]
   \<and> fst (search toy (init toy 128 (Some 2) (Some [Cpu])) toy_corpus_zero toy_queries 1 ''cos_sim'')
     = Inr [(''q0'', [(''d0'', Fin 1), (''d2'', Fin 1), (''d3'', Fin 1), (''z'', Fin (- 1))]),
            (''q1'', [(''d0'', Fin 1), (''d2'', Fin 1), (''d3'', Fin 1), (''z'', Fin (- 1))])]
   \<and> cos_sim toy_clamped [3, 2] [0] = [[Fin 0], [Fin 0]]
   \<and> fst (search toy_clamped (init toy_clamped 128 (Some 2) (Some [Cpu])) toy_corpus_zero
             toy_queries 1 ''cos_sim'')
     = Inr [(''q0'', [(''d0'', Fin 1), (''d2'', Fin 1), (''d3'', Fin 1), (''z'', Fin 0)]),
            (''q1'', [(''d0'', Fin 1), (''d2'', Fin 1), (''d3'', Fin 1), (''z'', Fin 0)])]
   \<and> c_id toy_zero_doc = ''z''"
proof -
  have "toy_zero_doc \<in> set toy_corpus_zero" by (simp add: toy_corpus_zero_def)
  moreover have "map c_title toy_corpus_zero = [NoTitle, NoTitle, NoTitle, NoTitle]"
    by (simp add: toy_corpus_zero_def toy_zero_doc_def doc_def)
  moreover have "encode_corpus toy [toy_zero_doc] = [0]"
    by (simp add: toy_def toy_zero_doc_def doc_def toy_vec_def)
  moreover have "cos_sim toy [3, 2] [0] = [[NaN], [NaN]]" by (simp add: toy_def toy_cos_def)
  moreover have "cos_sim toy_clamped [3, 2] [0] = [[Fin 0], [Fin 0]]"
    by (simp add: toy_clamped_def toy_cos_clamped_def)
  moreover have "c_id toy_zero_doc = ''z''" by (simp add: toy_zero_doc_def doc_def)
  moreover have "fst (search toy (init toy 128 (Some 2) (Some [Cpu])) toy_corpus_zero toy_queries 1
                         ''cos_sim'')
     = Inr [(''q0'', [(''d0'', Fin 1), (''d2'', Fin 1), (''d3'', Fin 1), (''z'', Fin (- 1))]),
            (''q1'', [(''d0'', Fin 1), (''d2'', Fin 1), (''d3'', Fin 1), (''z'', Fin (- 1))])]"
    by code_simp
  moreover have "fst (search toy_clamped (init toy_clamped 128 (Some 2) (Some [Cpu])) toy_corpus_zero
                         toy_queries 1 ''cos_sim'')
     = Inr [(''q0'', [(''d0'', Fin 1), (''d2'', Fin 1), (''d3'', Fin 1), (''z'', Fin 0)]),
            (''q1'', [(''d0'', Fin 1), (''d2'', Fin 1), (''d3'', Fin 1), (''z'', Fin 0)])]"
    by code_simp
  ultimately show ?thesis by (intro conjI)
qed

text \<open>
  Claim C5, amended. For a worker whose job is set (a known score function, at least two
  queries, \<^verbatim>\<open>top_k\<close> at least -1), with encoders and similarity functions of the promised
  shapes and a \<^verbatim>\<open>topk\<close> that selects as promised, and for every chunk: the chunk is
  processed without an error, whatever not-a-number entries its score matrix has, and no
  emitted value is a not-a-number. A not-a-number entry competes as the score -1: when
  its item is selected for a query, the emitted value is -1 and every item of the chunk
  left out of that query's selection scores at most -1. And when the chunk has at most
  \<^verbatim>\<open>top_k + 1\<close> items, every item of the chunk is selected for every query, whatever its
  score.
\<close>

theorem nan_competes_as_minus_one:
  assumes "shaped ext" and "topk_selects (topk ext)"
    and "score_function self = Some name" and "score_functions ext name = Some f"
    and "query_embeddings self = Some Q" and "2 \<le> length Q"
    and "top_k self = Some t" and "-1 \<le> t"
  shows "\<exists>rows. process_batch ext self (b, chunk) = Inr rows
     \<and> (\<forall>r \<in> set rows. NaN \<notin> set (cos_scores_top_k_values r))
     \<and> (\<forall>qi < length Q. \<forall>r \<in> set rows.
          f Q (encode_corpus ext chunk) ! qi ! nat (cos_scores_top_k_idx r ! qi) = NaN \<longrightarrow>
            cos_scores_top_k_values r ! qi = Fin (-1)
          \<and> (\<forall>c < length chunk.
               int c \<notin> (\<lambda>r. cos_scores_top_k_idx r ! qi) ` set rows \<longrightarrow>
               score_le (replace_nan (f Q (encode_corpus ext chunk) ! qi ! c)) (Fin (-1))))
     \<and> (int (length chunk) \<le> t + 1 \<longrightarrow>
          (\<forall>qi < length Q. \<forall>c < length chunk.
             int c \<in> (\<lambda>r. cos_scores_top_k_idx r ! qi) ` set rows))"
proof -
  let ?raw = "f Q (encode_corpus ext chunk)"
  from process_batch_selects[OF assms, of b chunk] obtain rows where
    pb: "process_batch ext self (b, chunk) = Inr rows" and
    lr: "length rows = nat (min (t + 1) (int (length chunk)))" and
    len: "\<forall>r \<in> set rows. length (cos_scores_top_k_values r) = length Q" and
    dis: "\<forall>qi < length Q. distinct (map (\<lambda>r. cos_scores_top_k_idx r ! qi) rows)" and
    rng: "\<forall>qi < length Q. \<forall>r \<in> set rows.
            0 \<le> cos_scores_top_k_idx r ! qi \<and> cos_scores_top_k_idx r ! qi < int (length chunk)" and
    val: "\<forall>qi < length Q. \<forall>r \<in> set rows.
            cos_scores_top_k_values r ! qi = replace_nan (?raw ! qi ! nat (cos_scores_top_k_idx r ! qi))" and
    out: "\<forall>qi < length Q. \<forall>c < length chunk.
            int c \<notin> (\<lambda>r. cos_scores_top_k_idx r ! qi) ` set rows \<longrightarrow>
            (\<forall>r \<in> set rows. score_le (replace_nan (?raw ! qi ! c)) (cos_scores_top_k_values r ! qi))"
    by blast
  have 1: "NaN \<notin> set (cos_scores_top_k_values r)" if r: "r \<in> set rows" for r
  proof
    assume "NaN \<in> set (cos_scores_top_k_values r)"
    then obtain qi where qi: "qi < length (cos_scores_top_k_values r)" "cos_scores_top_k_values r ! qi = NaN"
      by (auto simp: in_set_conv_nth)
    then have "qi < length Q" using len r by simp
    then have "cos_scores_top_k_values r ! qi = replace_nan (?raw ! qi ! nat (cos_scores_top_k_idx r ! qi))"
      using val r by blast
    then show False using qi(2) by (metis replace_nan_not_NaN)
  qed
  have 2: "cos_scores_top_k_values r ! qi = Fin (-1)
          \<and> (\<forall>c < length chunk.
               int c \<notin> (\<lambda>r. cos_scores_top_k_idx r ! qi) ` set rows \<longrightarrow>
               score_le (replace_nan (?raw ! qi ! c)) (Fin (-1)))"
    if qi: "qi < length Q" and r: "r \<in> set rows"
      and nan: "?raw ! qi ! nat (cos_scores_top_k_idx r ! qi) = NaN" for qi r
  proof -
    have v: "cos_scores_top_k_values r ! qi = Fin (-1)"
      using val qi r nan by (simp add: replace_nan_def)
    show ?thesis using v out qi r by metis
  qed
  have 3: "int c \<in> (\<lambda>r. cos_scores_top_k_idx r ! qi) ` set rows"
    if small: "int (length chunk) \<le> t + 1" and qi: "qi < length Q" and c: "c < length chunk"
    for qi c
  proof -
    let ?I = "(\<lambda>r. cos_scores_top_k_idx r ! qi) ` set rows"
    have "card (set (map (\<lambda>r. cos_scores_top_k_idx r ! qi) rows)) = length rows"
      using dis qi distinct_card[of "map (\<lambda>r. cos_scores_top_k_idx r ! qi) rows"] by simp
    then have cI: "card ?I = length chunk" using lr small by simp
    have sub: "?I \<subseteq> int ` {..<length chunk}"
    proof
      fix x assume "x \<in> ?I"
      then obtain r where r: "r \<in> set rows" "x = cos_scores_top_k_idx r ! qi" by blast
      then have "0 \<le> x" "x < int (length chunk)" using rng qi by auto
      then have "x = int (nat x)" "nat x < length chunk" by simp_all
      then show "x \<in> int ` {..<length chunk}" by blast
    qed
    have "card (int ` {..<length chunk}) = length chunk" by (simp add: card_image)
    then have "?I = int ` {..<length chunk}"
      using card_subset_eq[OF _ sub] cI by simp
    then show ?thesis using c by blast
  qed
  show ?thesis using pb 1 2 3 by blast
qed

theorem nan_competes_as_minus_one_witness:
  "cos_sim toy [3, 2] (encode_corpus toy [toy_zero_doc, doc ''d0'' ''abcde'', doc ''d2'' ''abc''])
     = [[NaN, Fin 1, Fin 1], [NaN, Fin 1, Fin 1]]
   \<and> process_batch toy toy_cos_state (0, [toy_zero_doc, doc ''d0'' ''abcde'', doc ''d2'' ''abc''])
     = Inr [\<lparr> cos_scores_top_k_values = [Fin 1, Fin 1], cos_scores_top_k_idx = [1, 1], batch_index = 0 \<rparr>,
            \<lparr> cos_scores_top_k_values = [Fin 1, Fin 1], cos_scores_top_k_idx = [2, 2], batch_index = 0 \<rparr>,
            \<lparr> cos_scores_top_k_values = [Fin (-1), Fin (-1)], cos_scores_top_k_idx = [0, 0], batch_index = 0 \<rparr>]
   \<and> NaN \<notin> set [Fin 1, Fin 1, Fin (-1)]
   \<and> int (length [toy_zero_doc, doc ''d0'' ''abcde'', doc ''d2'' ''abc'']) \<le> 2 + 1
   \<and> (0::int) \<in> (\<lambda>r. cos_scores_top_k_idx r ! 0) `
         set [\<lparr> cos_scores_top_k_values = [Fin 1, Fin 1], cos_scores_top_k_idx = [1, 1], batch_index = 0 \<rparr>,
              \<lparr> cos_scores_top_k_values = [Fin 1, Fin 1], cos_scores_top_k_idx = [2, 2], batch_index = 0 \<rparr>,
              \<lparr> cos_scores_top_k_values = [Fin (-1), Fin (-1)], cos_scores_top_k_idx = [0, 0], batch_index = 0 \<rparr>]"
proof -
  have a: "score_function toy_cos_state = Some ''cos_sim''"
    and b: "score_functions toy ''cos_sim'' = Some (cos_sim toy)"
    and c: "query_embeddings toy_cos_state = Some [3, 2]"
    and d: "2 \<le> length [3, 2 :: int]"
    and e: "top_k toy_cos_state = Some 2"
    and f: "- 1 \<le> (2 :: int)"
    by (simp_all add: toy_cos_state_def toy_worker_state_def score_functions_def)
  from nan_competes_as_minus_one[OF shaped_toy toy_topk a b c d e f, of 0
         "[toy_zero_doc, doc ''d0'' ''abcde'', doc ''d2'' ''abc'']"]
  obtain rows where
    pb: "process_batch toy toy_cos_state (0, [toy_zero_doc, doc ''d0'' ''abcde'', doc ''d2'' ''abc'']) = Inr rows"
    and nn: "\<forall>r \<in> set rows. NaN \<notin> set (cos_scores_top_k_values r)"
    and al: "int (length [toy_zero_doc, doc ''d0'' ''abcde'', doc ''d2'' ''abc'']) \<le> 2 + 1 \<longrightarrow>
          (\<forall>qi < length [3, 2 :: int].
             \<forall>c < length [toy_zero_doc, doc ''d0'' ''abcde'', doc ''d2'' ''abc''].
               int c \<in> (\<lambda>r. cos_scores_top_k_idx r ! qi) ` set rows)"
    by blast
  have rows: "rows = [\<lparr> cos_scores_top_k_values = [Fin 1, Fin 1], cos_scores_top_k_idx = [1, 1], batch_index = 0 \<rparr>,
            \<lparr> cos_scores_top_k_values = [Fin 1, Fin 1], cos_scores_top_k_idx = [2, 2], batch_index = 0 \<rparr>,
            \<lparr> cos_scores_top_k_values = [Fin (-1), Fin (-1)], cos_scores_top_k_idx = [0, 0], batch_index = 0 \<rparr>]"
    using pb toy_cos_batch by simp
  have "int 0 \<in> (\<lambda>r. cos_scores_top_k_idx r ! 0) ` set rows"
    using al by (intro al[rule_format]) simp_all
  then have z: "(0::int) \<in> (\<lambda>r. cos_scores_top_k_idx r ! 0) ` set rows" by simp
  show ?thesis using nn z toy_cos_batch toy_cos_scores unfolding rows by simp
qed

text \<open>
  Claim C6. \<^verbatim>\<open>search\<close> raises the error of line 75 exactly when the score function is
  neither \<^verbatim>\<open>cos_sim\<close> nor \<^verbatim>\<open>dot\<close>; it then leaves the object as it was, and nothing has
  been encoded or dispatched (the run has no event).
\<close>

theorem unknown_score_function_fails_first:
  "(fst (search ext self corpus queries t sf) = Inl (ScoreFunctionError sf)
      \<longleftrightarrow> sf \<notin> {''cos_sim'', ''dot''})
   \<and> (sf \<notin> {''cos_sim'', ''dot''} \<longrightarrow>
        search ext self corpus queries t sf = (Inl (ScoreFunctionError sf), self, []))"
proof -
  have 1: "search ext self corpus queries t sf = (Inl (ScoreFunctionError sf), self, [])"
    if "sf \<notin> {''cos_sim'', ''dot''}"
    using that score_functions_None[of ext sf] by (simp add: search_def)
  have 2: "fst (search ext self corpus queries t sf) \<noteq> Inl (ScoreFunctionError sf)"
    if "sf \<in> {''cos_sim'', ''dot''}"
  proof -
    from that obtain f where f: "score_functions ext sf = Some f"
      using score_functions_None[of ext sf] by auto
    show ?thesis
    proof (cases "chunk_size_or_default self (length corpus)")
      case (Inl e)
      then have "e = ZeroDivisionError"
        by (auto simp: chunk_size_or_default_def split: option.splits if_splits)
      then show ?thesis using f Inl by (simp add: search_def)
    next
      case (Inr c)
      then show ?thesis using f search_job_not_score_function_error
        by (simp add: search_def Let_def)
    qed
  qed
  show ?thesis using 1 2 by auto
qed

theorem unknown_score_function_fails_first_witness:
  "''euclid'' \<notin> {''cos_sim'', ''dot''}
   \<and> search toy (init toy 128 None None) toy_corpus toy_queries 1 ''euclid''
       = (Inl (ScoreFunctionError ''euclid''), init toy 128 None None, [])
   \<and> fst (search toy (init toy 128 (Some 2) (Some [Cpu])) toy_corpus toy_queries 1 ''dot'')
       \<noteq> Inl (ScoreFunctionError ''dot'')"
  using unknown_score_function_fails_first[of toy "init toy 128 None None" toy_corpus toy_queries 1 "''euclid''"]
    unknown_score_function_fails_first[of toy "init toy 128 (Some 2) (Some [Cpu])" toy_corpus toy_queries 1 "''dot''"]
  by simp

text \<open>
  Claim C7. With the chunk size unset (and at least one device, and a known score
  function), \<^verbatim>\<open>search\<close> stores \<open>cs = min (min \<lceil>corpus_size / num_workers / 10\<rceil> 5000)
  (corpus_size - 1)\<close>. When the job returns, \<open>cs\<close> is the chunk size of the dispatch: the
  chunk ids put on the queue are \<open>0, \<dots>, \<lceil>corpus_size / cs\<rceil> - 1\<close>, chunk \<open>b\<close> being the
  items \<open>b * cs, \<dots>\<close> of the reordered corpus, at most \<open>cs\<close> of them. And \<open>cs\<close> is the chunk
  size of the merge arithmetic: whatever the worker yields for chunk \<open>b\<close>, a candidate
  with local index \<open>i\<close> is entered in the query's result under the id of the reordered
  corpus at position \<open>i + b * cs\<close>, which is item \<open>i\<close> of that chunk (unless that id is
  the query's own).
\<close>

theorem derived_chunk_size:
  assumes "corpus_chunk_size self = None" and "target_devices self \<noteq> []"
    and "sf \<in> {''cos_sim'', ''dot''}"
    and "cs = min (min \<lceil>real (length corpus) / real (length (target_devices self)) / 10\<rceil> 5000)
                  (int (length corpus) - 1)"
  shows "corpus_chunk_size (fst (snd (search ext self corpus queries t sf))) = Some cs
     \<and> (\<forall>res corpus1.
          fst (search ext self corpus queries t sf) = Inr res \<longrightarrow>
          reorder self corpus = Inr corpus1 \<longrightarrow>
            dispatched (snd (snd (search ext self corpus queries t sf)))
              = [0..<(length corpus + nat cs - 1) div nat cs]
          \<and> (shaped ext \<longrightarrow> topk_selects (topk ext) \<longrightarrow>
               (\<forall>b rows r qi.
                  b < (length corpus + nat cs - 1) div nat cs \<longrightarrow>
                  process_batch ext
                    (set_job (self\<lparr>corpus_chunk_size := Some cs\<rparr>)
                       (concat (encode_query_batches ext cs queries)) t sf)
                    (b, take (nat cs) (drop (b * nat cs) corpus1)) = Inr rows \<longrightarrow>
                  r \<in> set rows \<longrightarrow> qi < length queries \<longrightarrow>
                  (\<exists>i. cos_scores_top_k_idx r ! qi = int i
                     \<and> i < length (take (nat cs) (drop (b * nat cs) corpus1))
                     \<and> i + b * nat cs < length corpus1
                     \<and> (c_id (corpus1 ! (i + b * nat cs)) \<noteq> q_id (queries ! qi) \<longrightarrow>
                          (\<exists>m. map_of res (q_id (queries ! qi)) = Some m
                             \<and> c_id (corpus1 ! (i + b * nat cs)) \<in> fst ` set m))))))"
proof -
  let ?self0 = "self\<lparr>corpus_chunk_size := Some cs\<rparr>"
  let ?m = "(length corpus + nat cs - 1) div nat cs"
  obtain f where f: "score_functions ext sf = Some f"
    using assms(3) score_functions_None[of ext sf] by auto
  have a: "score_functions ext sf \<noteq> None" using f by simp
  have b: "chunk_size_or_default self (length corpus) =
             Inr (min \<lceil>real (length corpus) / real (length (target_devices self)) / 10\<rceil> 5000)"
    using assms(1,2) by (simp add: chunk_size_or_default_def derive_chunk_size_def)
  have eq: "search ext self corpus queries t sf = search_job ext ?self0 cs corpus queries t sf"
    using search_chunk_size(1)[OF a b] assms(4) by simp
  have 1: "corpus_chunk_size (fst (snd (search ext self corpus queries t sf))) = Some cs"
    using search_chunk_size(2)[OF a b] assms(4) by simp
  have 2: "dispatched (snd (snd (search ext self corpus queries t sf))) = [0..<?m]
          \<and> (shaped ext \<longrightarrow> topk_selects (topk ext) \<longrightarrow>
               (\<forall>b rows r qi.
                  b < ?m \<longrightarrow>
                  process_batch ext
                    (set_job ?self0 (concat (encode_query_batches ext cs queries)) t sf)
                    (b, take (nat cs) (drop (b * nat cs) corpus1)) = Inr rows \<longrightarrow>
                  r \<in> set rows \<longrightarrow> qi < length queries \<longrightarrow>
                  (\<exists>i. cos_scores_top_k_idx r ! qi = int i
                     \<and> i < length (take (nat cs) (drop (b * nat cs) corpus1))
                     \<and> i + b * nat cs < length corpus1
                     \<and> (c_id (corpus1 ! (i + b * nat cs)) \<noteq> q_id (queries ! qi) \<longrightarrow>
                          (\<exists>m. map_of res (q_id (queries ! qi)) = Some m
                             \<and> c_id (corpus1 ! (i + b * nat cs)) \<in> fst ` set m)))))"
    if run: "fst (search ext self corpus queries t sf) = Inr res"
      and re: "reorder self corpus = Inr corpus1" for res corpus1
  proof -
    have re0: "reorder ?self0 corpus = Inr corpus1" using re by simp
    have job: "search ext self corpus queries t sf = run_job ext ?self0 cs corpus1 queries t sf"
      unfolding eq by (simp add: search_job_def re)
    have rj: "fst (run_job ext ?self0 cs corpus1 queries t sf) = Inr res" using run job by simp
    have cs: "0 < cs" using run_job_Inr[OF rj] by blast
    have l: "length corpus1 = length corpus" by (rule length_reorder[OF re])
    have lb: "length (batches (nat cs) corpus1) = ?m"
      using cs length_batches[of "nat cs" corpus1] l by simp
    have "map fst (dispatch cs corpus1) = [0..<length (batches (nat cs) corpus1)]"
      by (simp add: dispatch_def enumerate_from0_def)
    then have d: "dispatched (snd (snd (search ext self corpus queries t sf))) = [0..<?m]"
      unfolding job using run_job_dispatched[OF rj] lb by simp
    have c: "\<exists>i. cos_scores_top_k_idx r ! qi = int i
                     \<and> i < length (take (nat cs) (drop (b * nat cs) corpus1))
                     \<and> i + b * nat cs < length corpus1
                     \<and> (c_id (corpus1 ! (i + b * nat cs)) \<noteq> q_id (queries ! qi) \<longrightarrow>
                          (\<exists>m. map_of res (q_id (queries ! qi)) = Some m
                             \<and> c_id (corpus1 ! (i + b * nat cs)) \<in> fst ` set m))"
      if sh: "shaped ext" and ts: "topk_selects (topk ext)" and bm: "b < ?m"
        and pb: "process_batch ext
                    (set_job ?self0 (concat (encode_query_batches ext cs queries)) t sf)
                    (b, take (nat cs) (drop (b * nat cs) corpus1)) = Inr rows"
        and r: "r \<in> set rows" and qi: "qi < length queries" for b rows r qi
    proof -
      have bl: "b < length (batches (nat cs) corpus1)" using bm lb by simp
      have ch: "batches (nat cs) corpus1 ! b = take (nat cs) (drop (b * nat cs) corpus1)"
        using cs bl by (simp add: batches_nth_take_drop)
      from run_job_enters_candidates[OF sh ts f rj bl pb[folded ch] r qi]
      obtain i where
        i: "cos_scores_top_k_idx r ! qi = int i" "i < length (batches (nat cs) corpus1 ! b)"
           "c_id (batches (nat cs) corpus1 ! b ! i) \<noteq> q_id (queries ! qi) \<longrightarrow>
              (\<exists>m. map_of res (q_id (queries ! qi)) = Some m
                 \<and> c_id (batches (nat cs) corpus1 ! b ! i) \<in> fst ` set m)"
        by blast
      have n0: "0 < nat cs" using cs by simp
      from batches_nth[OF n0 bl i(2)]
      have pos: "b * nat cs + i < length corpus1"
        and it: "batches (nat cs) corpus1 ! b ! i = corpus1 ! (b * nat cs + i)" by auto
      have it': "take (nat cs) (drop (b * nat cs) corpus1) ! i = corpus1 ! (i + b * nat cs)"
        using it ch by (simp add: add.commute)
      have pos': "i + b * nat cs < length corpus1" using pos by (simp add: add.commute)
      show ?thesis
        using i(1) i(2)[unfolded ch] i(3)[unfolded ch it'] pos' by blast
    qed
    show ?thesis using d c by blast
  qed
  show ?thesis using 1 2 by blast
qed

theorem derived_chunk_size_witness:
  "corpus_chunk_size (fst (snd (search toy (init toy 128 None (Some [Cpu])) toy_corpus11 toy_queries 0
                                  ''dot''))) = Some 2
   \<and> dispatched (snd (snd (search toy (init toy 128 None (Some [Cpu])) toy_corpus11 toy_queries 0
                              ''dot''))) = [0, 1, 2, 3, 4, 5]
   \<and> process_batch toy
       (set_job ((init toy 128 None (Some [Cpu]))\<lparr>corpus_chunk_size := Some 2\<rparr>)
          (concat (encode_query_batches toy 2 toy_queries)) 0 ''dot'')
       (1, take (nat 2) (drop (1 * nat 2) toy_corpus11))
     = Inr [\<lparr> cos_scores_top_k_values = [Fin 27, Fin 18], cos_scores_top_k_idx = [0, 0],
               batch_index = 1 \<rparr>]
   \<and> take (nat 2) (drop (1 * nat 2) toy_corpus11)
     = [doc ''d02'' ''aaaaaaaaaa'', doc ''d03'' ''aaaaaaaaa'']
   \<and> c_id (toy_corpus11 ! (0 + 1 * nat 2)) = ''d02''
   \<and> (\<exists>m. map_of (results (fst (snd (search toy (init toy 128 None (Some [Cpu])) toy_corpus11
                                         toy_queries 0 ''dot'')))) ''q0'' = Some m
          \<and> ''d02'' \<in> fst ` set m)"
proof -
  let ?S = "init toy 128 None (Some [Cpu])"
  let ?run = "search toy ?S toy_corpus11 toy_queries 0 ''dot''"
  let ?res = "[(''q0'', [(''d00'', Fin 33), (''d02'', Fin 27), (''d04'', Fin 21),
                        (''d06'', Fin 15), (''d08'', Fin 9), (''d10'', Fin 3)]),
               (''q1'', [(''d00'', Fin 22), (''d02'', Fin 18), (''d04'', Fin 14),
                        (''d06'', Fin 10), (''d08'', Fin 6), (''d10'', Fin 2)])]"
  let ?row = "\<lparr> cos_scores_top_k_values = [Fin 27, Fin 18], cos_scores_top_k_idx = [0, 0],
                batch_index = 1 \<rparr>"
  have a: "corpus_chunk_size ?S = None" by (simp add: init_def)
  have b: "target_devices ?S \<noteq> []" by (simp add: init_def)
  have c: "''dot'' \<in> {''cos_sim'', ''dot''}" by simp
  have d: "(2::int) = min (min \<lceil>real (length toy_corpus11) / real (length (target_devices ?S)) / 10\<rceil> 5000)
                         (int (length toy_corpus11) - 1)"
    by (simp add: toy_corpus11_def init_def)
  note th = derived_chunk_size[where ext = toy and queries = toy_queries and t = 0, OF a b c d]
  have run: "?run =
      (Inr ?res,
       ?S\<lparr> corpus_chunk_size := Some 2, results := ?res, query_embeddings := Some [3, 2],
            top_k := Some 0, score_function := Some ''dot'' \<rparr>,
       [EncodeQueries [''abcd'', ''abc''], Dispatch 0, Dispatch 1, Dispatch 2, Dispatch 3,
        Dispatch 4, Dispatch 5])"
    by code_simp
  have r: "fst ?run = Inr ?res" and rs: "results (fst (snd ?run)) = ?res"
    by (simp_all add: run)
  have re: "reorder ?S toy_corpus11 = Inr toy_corpus11" by code_simp
  have pb: "process_batch toy
       (set_job (?S\<lparr>corpus_chunk_size := Some 2\<rparr>)
          (concat (encode_query_batches toy 2 toy_queries)) 0 ''dot'')
       (1, take (nat 2) (drop (1 * nat 2) toy_corpus11)) = Inr [?row]"
    by code_simp
  have 1: "corpus_chunk_size (fst (snd ?run)) = Some 2" using th by (rule conjunct1)
  note job = th[THEN conjunct2, rule_format, OF r re]
  have m: "(length toy_corpus11 + nat 2 - 1) div nat 2 = 6" by (simp add: toy_corpus11_def)
  have "[0..<6] = [0, 1, 2, 3, 4, 5]" by (simp add: upt_rec)
  then have 2: "dispatched (snd (snd ?run)) = [0, 1, 2, 3, 4, 5]"
    using job[THEN conjunct1] unfolding m by simp
  have bm: "1 < (length toy_corpus11 + nat 2 - 1) div nat 2" unfolding m by simp
  have rin: "?row \<in> set [?row]" by simp
  have ql: "0 < length toy_queries" by (simp add: toy_queries_def)
  from job[THEN conjunct2, rule_format, OF shaped_toy toy_topk bm pb rin ql]
  obtain i where i: "cos_scores_top_k_idx ?row ! 0 = int i"
    and k: "c_id (toy_corpus11 ! (i + 1 * nat 2)) \<noteq> q_id (toy_queries ! 0) \<longrightarrow>
              (\<exists>m. map_of ?res (q_id (toy_queries ! 0)) = Some m
                 \<and> c_id (toy_corpus11 ! (i + 1 * nat 2)) \<in> fst ` set m)"
    by blast
  have i0: "i = 0" using i by simp
  have ch: "take (nat 2) (drop (1 * nat 2) toy_corpus11)
              = [doc ''d02'' ''aaaaaaaaaa'', doc ''d03'' ''aaaaaaaaa'']"
    by (simp add: toy_corpus11_def)
  have id: "c_id (toy_corpus11 ! (0 + 1 * nat 2)) = ''d02''"
    by (simp add: toy_corpus11_def doc_def)
  have q: "q_id (toy_queries ! 0) = ''q0''" by (simp add: toy_queries_def query_def)
  have 3: "\<exists>m. map_of ?res ''q0'' = Some m \<and> ''d02'' \<in> fst ` set m"
    using k unfolding i0 id q by simp
  show ?thesis
    using 1 2 pb ch id 3 unfolding rs by (intro conjI)
qed

text \<open>
  Claim C8. The warmup example has batch index -1; every worker of the pool writes it
  first and writes no other example with batch index -1; and the merge gives the same
  result with and without the examples of batch index -1, so that no sentinel
  contributes an entry to any query's result.
\<close>

theorem one_sentinel_per_worker_never_merged:
  "batch_index warmup = -1
   \<and> (\<forall>out \<in> set (run_pool ext self items).
         \<exists>rest. fst out = warmup # rest \<and> (\<forall>r \<in> set rest. batch_index r \<noteq> -1))
   \<and> format_results query_ids corpus_ids n chunk_size rows
        = format_results query_ids corpus_ids n chunk_size (filter (\<lambda>r. batch_index r \<noteq> -1) rows)"
proof -
  have 1: "batch_index warmup = -1" by (simp add: warmup_def)
  have 2: "\<forall>out \<in> set (run_pool ext self items).
         \<exists>rest. fst out = warmup # rest \<and> (\<forall>r \<in> set rest. batch_index r \<noteq> -1)"
    using worker_sentinel_first by (auto simp: run_pool_def Let_def)
  show ?thesis using 1 2 format_results_filter[of query_ids corpus_ids n chunk_size rows] by simp
qed

theorem one_sentinel_per_worker_never_merged_witness:
  "run_pool toy toy_worker_state (enumerate_from0 (batches 2 toy_corpus))
     = [([warmup, toy_row0], None), ([warmup, toy_row1], None)]
   \<and> batch_index toy_row0 \<noteq> -1 \<and> batch_index toy_row1 \<noteq> -1
   \<and> format_results (map q_id toy_queries) (map c_id toy_corpus) 2 2
         [warmup, toy_row0, warmup, toy_row1]
       = format_results (map q_id toy_queries) (map c_id toy_corpus) 2 2 [toy_row0, toy_row1]"
  using toy_pool_run
    one_sentinel_per_worker_never_merged[of toy toy_worker_state
      "enumerate_from0 (batches 2 toy_corpus)" "map q_id toy_queries" "map c_id toy_corpus" 2 2
      "[warmup, toy_row0, warmup, toy_row1]"]
  by (simp add: warmup_def toy_row0_def toy_row1_def)

text \<open>
  Claim C9 (no runtime error for degenerate configurations) against the code. A corpus
  of one item, with a requested chunk size of 10 or with none, has its chunk size
  clamped to \<open>min c (1 - 1) = 0\<close>, and the job stops at the construction of the batches
  with that size. And with a single query the worker's \<^verbatim>\<open>len(cos_scores[1])\<close> reads a row
  that does not exist: the k-selection step itself raises \<^verbatim>\<open>IndexError\<close>. (Everywhere
  else the clamps do what the claim says: \<open>search_succeeds\<close> above, for a corpus and a
  query set of two or more items each, no title that is \<^verbatim>\<open>None\<close>, and a positive chunk
  size, whatever \<^verbatim>\<open>top_k\<close> from -1 on.)
\<close>

theorem degenerate_inputs_fail:
  "search toy (init toy 128 (Some 10) (Some [Cpu])) [doc ''d0'' ''abcde''] toy_queries 1 ''dot''
     = (Inl (BatchSizeError 0), (init toy 128 (Some 10) (Some [Cpu]))\<lparr>corpus_chunk_size := Some 0\<rparr>, [])
   \<and> search toy (init toy 128 None (Some [Cpu])) [doc ''d0'' ''abcde''] toy_queries 1 ''dot''
     = (Inl (BatchSizeError 0), (init toy 128 None (Some [Cpu]))\<lparr>corpus_chunk_size := Some 0\<rparr>, [])
   \<and> snd (snd (search toy (init toy 128 (Some 10) (Some [Cpu])) toy_corpus [query ''q0'' ''abcd''] 1 ''dot''))
     = [EncodeQueries [''abcd''], Dispatch 0, Dispatch 1, WorkerDied 0 IndexError]"
  by code_simp

text \<open>
  Claim C10. A call that passes line 77 stores \<open>min c (len corpus - 1)\<close> in
  \<^verbatim>\<open>corpus_chunk_size\<close>, where \<open>c\<close> is the caller's explicit value when there is one; the
  stored value stays after the call (also when the job fails later), and the next call
  starts from it instead of deriving a chunk size from its own corpus.
\<close>

theorem chunk_size_clamped_and_kept:
  assumes "sf \<in> {''cos_sim'', ''dot''}" and "sf2 \<in> {''cos_sim'', ''dot''}"
    and "chunk_size_or_default self (length corpus) = Inr c"
  shows "(\<forall>c0. corpus_chunk_size self = Some c0 \<longrightarrow> c = c0)
     \<and> corpus_chunk_size (fst (snd (search ext self corpus queries t sf)))
          = Some (min c (int (length corpus) - 1))
     \<and> chunk_size_or_default (fst (snd (search ext self corpus queries t sf))) (length corpus2)
          = Inr (min c (int (length corpus) - 1))
     \<and> corpus_chunk_size
          (fst (snd (search ext (fst (snd (search ext self corpus queries t sf)))
                       corpus2 queries2 t2 sf2)))
          = Some (min (min c (int (length corpus) - 1)) (int (length corpus2) - 1))"
proof -
  let ?self' = "fst (snd (search ext self corpus queries t sf))"
  have a: "score_functions ext sf \<noteq> None" using assms(1) score_functions_None[of ext sf] by simp
  have a2: "score_functions ext sf2 \<noteq> None" using assms(2) score_functions_None[of ext sf2] by simp
  have 0: "\<forall>c0. corpus_chunk_size self = Some c0 \<longrightarrow> c = c0"
    using assms(3) by (auto simp: chunk_size_or_default_def)
  have 1: "corpus_chunk_size ?self' = Some (min c (int (length corpus) - 1))"
    by (rule search_chunk_size(2)[OF a assms(3)])
  have 2: "chunk_size_or_default ?self' (length corpus2) = Inr (min c (int (length corpus) - 1))"
    using 1 by (simp add: chunk_size_or_default_def)
  have 3: "corpus_chunk_size (fst (snd (search ext ?self' corpus2 queries2 t2 sf2)))
          = Some (min (min c (int (length corpus) - 1)) (int (length corpus2) - 1))"
    by (rule search_chunk_size(2)[OF a2 2])
  show ?thesis using 0 1 2 3 by blast
qed

theorem chunk_size_clamped_and_kept_witness:
  "chunk_size_or_default (init toy 128 (Some 10) (Some [Cpu])) (length toy_corpus) = Inr 10
   \<and> corpus_chunk_size (fst (snd (search toy (init toy 128 (Some 10) (Some [Cpu]))
         toy_corpus toy_queries 1 ''dot''))) = Some 3
   \<and> corpus_chunk_size
        (fst (snd (search toy
           (fst (snd (search toy (init toy 128 (Some 10) (Some [Cpu])) toy_corpus toy_queries 1 ''dot'')))
           (replicate 100 (doc ''d'' ''ab'')) toy_queries 1 ''cos_sim''))) = Some 3
   \<and> derive_chunk_size 100 1 = 10"
proof -
  have h: "chunk_size_or_default (init toy 128 (Some 10) (Some [Cpu])) (length toy_corpus) = Inr 10"
    by (simp add: chunk_size_or_default_def init_def)
  have l: "length toy_corpus = 4" by (simp add: toy_corpus_def)
  have d: "derive_chunk_size 100 1 = 10" by (simp add: derive_chunk_size_def)
  have s1: "''dot'' \<in> {''cos_sim'', ''dot''}" and s2: "''cos_sim'' \<in> {''cos_sim'', ''dot''}" by simp_all
  show ?thesis
    using h d chunk_size_clamped_and_kept[OF s1 s2 h, of toy toy_queries 1 "replicate 100 (doc ''d'' ''ab'')" toy_queries 1]
    by (simp add: l)
qed

end
